theory Spec2Isabelle
  imports Main "HOL-Library.Sublist"
begin

section \<open>Python string primitives\<close>

text \<open>
  A Python \<open>str\<close> is modelled as a \<open>string\<close>, one \<open>char\<close> per code point; the model
  covers the code points 0 to 255. The predicates below are the restrictions of Python's
  \<open>str.isspace\<close> and \<open>str.lower\<close> to that range.
\<close>

text \<open>
  \<open>c.isspace()\<close>, which is also the class \<open>\s\<close> of a \<open>str\<close> pattern: TAB, LF, VT, FF, CR,
  the separators 0x1C to 0x1F, the blank, NEL (0x85) and the no-break space (0xA0).
\<close>

definition is_space :: "char \<Rightarrow> bool" where
  "is_space c \<longleftrightarrow>
     c = CHR 0x09 \<or> c = CHR 0x0A \<or> c = CHR 0x0B \<or> c = CHR 0x0C \<or> c = CHR 0x0D \<or>
     c = CHR 0x1C \<or> c = CHR 0x1D \<or> c = CHR 0x1E \<or> c = CHR 0x1F \<or>
     c = CHR 0x20 \<or> c = CHR 0x85 \<or> c = CHR 0xA0"

text \<open>
  \<open>c.lower()\<close>: the upper-case letters are A to Z, and 0xC0 to 0xDE without the
  multiplication sign 0xD7; each has its lower-case form 32 places further.
\<close>

definition is_upper :: "char \<Rightarrow> bool" where
  "is_upper c \<longleftrightarrow>
     (let n = (of_char c :: nat) in
        (65 \<le> n \<and> n \<le> 90) \<or> (192 \<le> n \<and> n \<le> 222 \<and> n \<noteq> 215))"

definition lower_char :: "char \<Rightarrow> char" where
  "lower_char c = (if is_upper c then char_of ((of_char c :: nat) + 32) else c)"

definition lower :: "string \<Rightarrow> string" where
  "lower s = map lower_char s"

text \<open>\<open>s.strip()\<close>: leading and trailing whitespace removed.\<close>

definition lstrip :: "string \<Rightarrow> string" where
  "lstrip s = dropWhile is_space s"

definition rstrip :: "string \<Rightarrow> string" where
  "rstrip s = rev (dropWhile is_space (rev s))"

definition strip :: "string \<Rightarrow> string" where
  "strip s = rstrip (lstrip s)"

text \<open>\<open>s.startswith(p)\<close>, \<open>s.endswith(p)\<close> and \<open>p in s\<close>.\<close>

definition startswith :: "string \<Rightarrow> string \<Rightarrow> bool" where
  "startswith s p = prefix p s"

definition endswith :: "string \<Rightarrow> string \<Rightarrow> bool" where
  "endswith s p = suffix p s"

definition contains :: "string \<Rightarrow> string \<Rightarrow> bool" where
  "contains s p = sublist p s"

text \<open>
  \<open>s.split(sep)\<close> for a separator that is not empty (Python raises \<open>ValueError\<close> on an
  empty one; every call site passes a literal): the occurrences of \<open>sep\<close> are found from
  the left, without overlap, and the pieces between them are returned, so the result is
  never the empty list.
\<close>

function split_str :: "string \<Rightarrow> string \<Rightarrow> string list" where
  "split_str sep [] = [[]]"
| "split_str sep (c # cs) =
     (if sep \<noteq> [] \<and> prefix sep (c # cs)
      then [] # split_str sep (drop (length sep) (c # cs))
      else (case split_str sep cs of
              [] \<Rightarrow> [[c]]
            | p # ps \<Rightarrow> (c # p) # ps))"
  by pat_completeness auto
termination
  by (relation "measure (\<lambda>(sep, s). length s)") (auto simp: neq_Nil_conv)

text \<open>\<open>sep.join(xs)\<close>.\<close>

fun join :: "string \<Rightarrow> string list \<Rightarrow> string" where
  "join sep [] = []"
| "join sep [x] = x"
| "join sep (x # y # ys) = x @ sep @ join sep (y # ys)"

text \<open>\<open>xs[i]\<close>, which raises \<open>IndexError\<close> when \<open>i\<close> is out of range.\<close>

fun index :: "'a list \<Rightarrow> nat \<Rightarrow> 'a option" where
  "index [] i = None"
| "index (x # xs) 0 = Some x"
| "index (x # xs) (Suc i) = index xs i"

section \<open>The input file of the prover: \<open>LogicEngine._create_input_file\<close>\<close>

text \<open>The conditional \<open>p if p.endswith(".") else p + "."\<close>, applied to each premise and to the goal.\<close>

definition terminated :: "string \<Rightarrow> string" where
  "terminated p = (if endswith p ''.'' then p else p @ ''.'')"

definition input_lines :: "string list \<Rightarrow> string \<Rightarrow> string list" where
  "input_lines premises goal =
     [''formulas(assumptions).''] @ map terminated premises @
     [''end_of_list.'', '''', ''formulas(goals).'', terminated goal, ''end_of_list.'']"

text \<open>The text written to the temporary file.\<close>

definition create_input_file :: "string list \<Rightarrow> string \<Rightarrow> string" where
  "create_input_file premises goal = join ''\<newline>'' (input_lines premises goal)"

text \<open>
  The file that \<open>_create_input_file\<close> leaves behind, \<open>path\<close> being the fresh name that
  \<open>tempfile.mkstemp\<close> chose: the text is written in text mode, its newlines as they are
  (as on a POSIX system), and read back by \<open>parse_file\<close> in the encoding it was written in.
\<close>

definition write_input_file ::
  "(string \<rightharpoonup> string) \<Rightarrow> string \<Rightarrow> string list \<Rightarrow> string \<Rightarrow> (string \<rightharpoonup> string)" where
  "write_input_file stored path premises goal =
     stored(path \<mapsto> create_input_file premises goal)"

section \<open>The parser of input files: \<open>Prover9FileParser.parse_content\<close>\<close>

subsection \<open>The comment filter\<close>

text \<open>
  The first loop of \<open>parse_content\<close>: every line is stripped, and kept when it is not empty
  and does not start with the comment sign.
\<close>

fun keep_lines :: "string list \<Rightarrow> string list" where
  "keep_lines [] = []"
| "keep_lines (l # ls) =
     (let line = strip l in
      if line \<noteq> [] \<and> \<not> startswith line ''%''
      then line # keep_lines ls
      else keep_lines ls)"

definition remove_comments :: "string \<Rightarrow> string" where
  "remove_comments content = join ''\<newline>'' (keep_lines (split_str ''\<newline>'' content))"

subsection \<open>The block pattern\<close>

text \<open>
  Both blocks are located by \<open>re.search\<close> with a pattern of the shape
  \<open>header \s* (.*?) \s* end_of_list\.\<close> under \<open>re.DOTALL | re.IGNORECASE\<close>. The matcher is
  written out part by part, from the end of the pattern to its start, each part trying its
  alternatives in the order of Python's backtracking matcher.

  A literal of the pattern matches a character when both have the same lower-case form;
  \<open>match_literal\<close> returns the text after the literal. This is \<open>re.IGNORECASE\<close> on
  the code points 0 to 255; beyond them it also lets U+017F match \<open>s\<close> and U+0130 and
  U+0131 match \<open>i\<close>, which the model leaves out.
\<close>

fun match_literal :: "string \<Rightarrow> string \<Rightarrow> string option" where
  "match_literal [] s = Some s"
| "match_literal (p # ps) [] = None"
| "match_literal (p # ps) (c # cs) =
     (if lower_char c = lower_char p then match_literal ps cs else None)"

definition end_marker :: string where
  "end_marker = ''end_of_list.''"

text \<open>\<open>\s*end_of_list\.\<close> at the start of the text: the greedy \<open>\s*\<close> takes a space first and gives it back when the rest fails.\<close>

fun spaces_end :: "string \<Rightarrow> bool" where
  "spaces_end [] = (match_literal end_marker [] \<noteq> None)"
| "spaces_end (c # cs) =
     (if is_space c \<and> spaces_end cs then True
      else match_literal end_marker (c # cs) \<noteq> None)"

text \<open>
  \<open>(.*?)\s*end_of_list\.\<close> at the start of the text: the lazy group tries to stop first and
  takes one more character (any character, under \<open>re.DOTALL\<close>) when the rest fails. The
  result is the text of the group.
\<close>

fun lazy_group :: "string \<Rightarrow> string option" where
  "lazy_group [] = (if spaces_end [] then Some [] else None)"
| "lazy_group (c # cs) =
     (if spaces_end (c # cs) then Some []
      else map_option ((#) c) (lazy_group cs))"

text \<open>\<open>\s*(.*?)\s*end_of_list\.\<close> at the start of the text, the first \<open>\s*\<close> greedy again.\<close>

fun spaces_group :: "string \<Rightarrow> string option" where
  "spaces_group [] = lazy_group []"
| "spaces_group (c # cs) =
     (case (if is_space c then spaces_group cs else None) of
        Some g \<Rightarrow> Some g
      | None \<Rightarrow> lazy_group (c # cs))"

text \<open>The whole pattern at the start of the text.\<close>

definition match_here :: "string \<Rightarrow> string \<Rightarrow> string option" where
  "match_here header s =
     (case match_literal header s of
        None \<Rightarrow> None
      | Some rest \<Rightarrow> spaces_group rest)"

text \<open>
  \<open>re.search\<close>: the pattern is tried at every position from the left; the result is
  \<open>group(1)\<close> of the first match, or \<open>None\<close> when there is no match.
\<close>

fun re_search :: "string \<Rightarrow> string \<Rightarrow> string option" where
  "re_search header [] = match_here header []"
| "re_search header (c # cs) =
     (case match_here header (c # cs) of
        Some g \<Rightarrow> Some g
      | None \<Rightarrow> re_search header cs)"

subsection \<open>The formulas of a block\<close>

text \<open>
  \<open>re.split(r'\.\s*', block)\<close>: a match is a period with all the whitespace after it; the
  pieces between the matches are returned.
\<close>

function re_split :: "string \<Rightarrow> string list" where
  "re_split [] = [[]]"
| "re_split (c # cs) =
     (if c = CHR ''.''
      then [] # re_split (dropWhile is_space cs)
      else (case re_split cs of
              [] \<Rightarrow> [[c]]
            | p # ps \<Rightarrow> (c # p) # ps))"
  by pat_completeness auto
termination
  by (relation "measure length") (auto simp: length_dropWhile_le less_Suc_eq_le)

text \<open>The loop over the pieces of the assumptions block.\<close>

fun collect_premises :: "string list \<Rightarrow> string list" where
  "collect_premises [] = []"
| "collect_premises (f # fs) =
     (let formula = strip f in
      if formula \<noteq> [] \<and> \<not> startswith (lower formula) ''end''
      then formula # collect_premises fs
      else collect_premises fs)"

text \<open>The loop over the pieces of the goals block, left at the first piece it accepts.\<close>

fun first_goal :: "string list \<Rightarrow> string option" where
  "first_goal [] = None"
| "first_goal (g # gs) =
     (let goal = strip g in
      if goal \<noteq> [] \<and> \<not> startswith (lower goal) ''end''
      then Some goal
      else first_goal gs)"

subsection \<open>\<open>parse_content\<close>\<close>

definition assumptions_header :: string where
  "assumptions_header = ''formulas(assumptions).''"

definition goals_header :: string where
  "goals_header = ''formulas(goals).''"

definition parse_content :: "string \<Rightarrow> string list \<times> string option" where
  "parse_content text =
     (let content = remove_comments text;
          premises =
            (case re_search assumptions_header content of
               None \<Rightarrow> []
             | Some g \<Rightarrow> collect_premises (re_split (strip g)));
          conclusion =
            (case re_search goals_header content of
               None \<Rightarrow> None
             | Some g \<Rightarrow> first_goal (re_split (strip g)))
      in (premises, conclusion))"

subsection \<open>\<open>parse_file\<close>\<close>

text \<open>
  \<open>open(path, 'r', encoding='utf-8')\<close> reads in text mode with universal newlines: a
  carriage return followed by a line feed, and a carriage return alone, are read as one
  line feed.
\<close>

fun universal_newlines :: "string \<Rightarrow> string" where
  "universal_newlines [] = []"
| "universal_newlines [c] = (if c = CHR 0x0D then [CHR 0x0A] else [c])"
| "universal_newlines (c # d # cs) =
     (if c = CHR 0x0D \<and> d = CHR 0x0A then CHR 0x0A # universal_newlines cs
      else if c = CHR 0x0D then CHR 0x0A # universal_newlines (d # cs)
      else c # universal_newlines (d # cs))"

text \<open>
  \<open>parse_file\<close>, the stored files given as a map from paths to the characters they hold:
  a path that does not exist raises \<open>FileNotFoundError\<close> with its message, an existing
  file is read and parsed.
\<close>

definition parse_file ::
  "(string \<rightharpoonup> string) \<Rightarrow> string \<Rightarrow> string + (string list \<times> string option)" where
  "parse_file stored file_path =
     (case stored file_path of
        None \<Rightarrow> Inl (''File not found: '' @ file_path)
      | Some content \<Rightarrow> Inr (parse_content (universal_newlines content)))"

section \<open>Running the prover: \<open>LogicEngine._run_prover\<close>\<close>

subsection \<open>Values\<close>

text \<open>What \<open>subprocess.run\<close> returns with \<open>capture_output=True, text=True\<close>: the two streams.\<close>

datatype completed = Completed (stdout: string) (stderr: string)

text \<open>
  The exceptions of the \<open>try\<close> block: \<open>subprocess.TimeoutExpired\<close>, the \<open>IndexError\<close> of a
  list index, any other subclass of \<open>Exception\<close> with its \<open>str(e)\<close> (a failure to launch the
  program or to read its output), and \<open>KeyboardInterrupt\<close>, which is not a subclass of
  \<open>Exception\<close>.
\<close>

datatype exn = TimeoutExpired | IndexError | OtherException string | KeyboardInterrupt

text \<open>The returned dictionary, its items in the order of the literal.\<close>

type_synonym result = "(string \<times> string) list"

text \<open>\<open>str(n)\<close> for an \<open>int\<close>, as the f-string of the timeout message formats it.\<close>

function digits :: "nat \<Rightarrow> string" where
  "digits n =
     (if n < 10 then [char_of (48 + n)]
      else digits (n div 10) @ [char_of (48 + n mod 10)])"
  by pat_completeness auto
termination
  by (relation "measure id") auto

definition str_int :: "int \<Rightarrow> string" where
  "str_int i = (if i < 0 then ''-'' @ digits (nat (- i)) else digits (nat i))"

subsection \<open>The \<open>try\<close> block\<close>

text \<open>The chain of tests on the captured streams (the \<open>if\<close>/\<open>elif\<close> of the \<open>try\<close> block).\<close>

definition classify :: "completed \<Rightarrow> exn + result" where
  "classify r =
     (if contains (stdout r) ''THEOREM PROVED'' then
        (case index (split_str ''PROOF ='' (stdout r)) 1 of
           None \<Rightarrow> Inl IndexError
         | Some a \<Rightarrow>
             (case index (split_str ''===='' a) 0 of
                None \<Rightarrow> Inl IndexError
              | Some b \<Rightarrow>
                  Inr [(''result'', ''proved''), (''proof'', strip b),
                       (''complete_output'', stdout r)]))
      else if contains (stdout r) ''SEARCH FAILED'' then
        Inr [(''result'', ''unprovable''), (''reason'', ''Proof search failed''),
             (''complete_output'', stdout r)]
      else if contains (stderr r) ''Fatal error'' then
        Inr [(''result'', ''error''), (''reason'', ''Syntax error''), (''error'', stderr r)]
      else
        Inr [(''result'', ''error''), (''reason'', ''Unexpected output''),
             (''output'', stdout r), (''error'', stderr r)])"

text \<open>The \<open>try\<close> block, given what \<open>subprocess.run\<close> did: it raised, or it returned the streams.\<close>

definition try_block :: "exn + completed \<Rightarrow> exn + result" where
  "try_block returned = (case returned of Inl e \<Rightarrow> Inl e | Inr r \<Rightarrow> classify r)"

subsection \<open>The \<open>except\<close> clauses\<close>

definition str_exn :: "exn \<Rightarrow> string" where
  "str_exn e =
     (case e of
        IndexError \<Rightarrow> ''list index out of range''
      | OtherException msg \<Rightarrow> msg
      | _ \<Rightarrow> [])"

text \<open>
  \<open>except subprocess.TimeoutExpired\<close>, then \<open>except Exception as e\<close>; an exception that
  neither clause names goes on to the caller.
\<close>

definition except_clauses :: "int \<Rightarrow> exn + result \<Rightarrow> exn + result" where
  "except_clauses timeout body =
     (case body of
        Inr r \<Rightarrow> Inr r
      | Inl TimeoutExpired \<Rightarrow>
          Inr [(''result'', ''timeout''),
               (''reason'', ''Proof search exceeded '' @ str_int timeout @ '' seconds'')]
      | Inl KeyboardInterrupt \<Rightarrow> Inl KeyboardInterrupt
      | Inl e \<Rightarrow> Inr [(''result'', ''error''), (''reason'', str_exn e)])"

text \<open>What \<open>_run_prover\<close> returns or raises, given what \<open>subprocess.run\<close> did.\<close>

definition prover_result :: "int \<Rightarrow> exn + completed \<Rightarrow> exn + result" where
  "prover_result timeout returned = except_clauses timeout (try_block returned)"

subsection \<open>The \<open>finally\<close> clause and the file system\<close>

text \<open>
  The file system, as far as \<open>_run_prover\<close> touches it: the paths that exist, and the
  paths that the operating system refuses to remove.
\<close>

record filesystem =
  files :: "string set"
  undeletable :: "string set"

datatype os_error = FileNotFoundError | PermissionError

text \<open>\<open>Path.unlink\<close>.\<close>

definition unlink :: "string \<Rightarrow> filesystem \<Rightarrow> os_error + filesystem" where
  "unlink path fs =
     (if path \<notin> files fs then Inl FileNotFoundError
      else if path \<in> undeletable fs then Inl PermissionError
      else Inr (fs\<lparr>files := files fs - {path}\<rparr>))"

text \<open>The \<open>finally\<close> clause: \<open>unlink\<close> inside its own \<open>try\<close>, every \<open>OSError\<close> passed over.\<close>

definition cleanup :: "string \<Rightarrow> filesystem \<Rightarrow> filesystem" where
  "cleanup path fs = (case unlink path fs of Inl e \<Rightarrow> fs | Inr fs' \<Rightarrow> fs')"

text \<open>
  \<open>_run_prover\<close> as a whole. The external program is a parameter: from the file system at
  the call it gives what \<open>subprocess.run\<close> returns or raises, and the file system it leaves.
\<close>

definition run_prover ::
  "(filesystem \<Rightarrow> (exn + completed) \<times> filesystem) \<Rightarrow> string \<Rightarrow> int \<Rightarrow> filesystem \<Rightarrow>
     (exn + result) \<times> filesystem" where
  "run_prover program input_path timeout fs =
     (let (returned, fs1) = program fs;
          outcome = prover_result timeout returned;
          fs2 = cleanup input_path fs1
      in (outcome, fs2))"

section \<open>Auxiliary notions for the statements\<close>




text \<open>
  The formulas for which writing and reading back is the identity: without a period,
  every line of the formula (the formula split at its newlines) not empty, without
  surrounding whitespace and not a comment line, the formula not beginning with \<open>end\<close>
  and not ending with \<open>end_of_list\<close> in any letter case.
\<close>

definition plain_formula :: "string \<Rightarrow> bool" where
  "plain_formula f \<longleftrightarrow>
     CHR ''.'' \<notin> set f \<and>
     (\<forall>l \<in> set (split_str ''\<newline>'' f). l \<noteq> [] \<and> strip l = l \<and> \<not> startswith l ''%'') \<and>
     \<not> startswith (lower f) ''end'' \<and>
     \<not> endswith (lower f) ''end_of_list''"

section \<open>The text of the input file\<close>

text \<open>
  C1. For the premises \<open>all x (man(x) -> mortal(x))\<close> and \<open>man(socrates)\<close> and the goal
  \<open>mortal(socrates)\<close>, the text written to the input file is the assumptions header, the two
  premises, each on its own line with a period appended, the end marker, an empty line, the
  goals header, the goal with its period and the end marker, joined by single newlines.
\<close>

theorem create_input_file_syllogism:
  "create_input_file [''all x (man(x) -> mortal(x))'', ''man(socrates)''] ''mortal(socrates)'' =
     ''formulas(assumptions).\<newline>all x (man(x) -> mortal(x)).\<newline>man(socrates).\<newline>end_of_list.\<newline>\<newline>formulas(goals).\<newline>mortal(socrates).\<newline>end_of_list.''"
  by (simp add: create_input_file_def input_lines_def terminated_def endswith_def suffix_def)

section \<open>The classification of a run\<close>

lemma split_str_nonempty: "split_str sep s \<noteq> []"
  by (induction sep s rule: split_str.induct) (auto split: list.splits)





text \<open>
  The outcomes of the chain of tests below its first branch, and of a timeout: each is
  reached in the order of the source.
\<close>

lemma decision_order:
  "prover_result timeout (Inl TimeoutExpired) =
     Inr [(''result'', ''timeout''),
          (''reason'', ''Proof search exceeded '' @ str_int timeout @ '' seconds'')]"
  "\<not> contains out ''THEOREM PROVED'' \<Longrightarrow> contains out ''SEARCH FAILED'' \<Longrightarrow>
     prover_result timeout (Inr (Completed out err)) =
       Inr [(''result'', ''unprovable''), (''reason'', ''Proof search failed''),
            (''complete_output'', out)]"
  "\<not> contains out ''THEOREM PROVED'' \<Longrightarrow> \<not> contains out ''SEARCH FAILED'' \<Longrightarrow>
     contains err ''Fatal error'' \<Longrightarrow>
     prover_result timeout (Inr (Completed out err)) =
       Inr [(''result'', ''error''), (''reason'', ''Syntax error''), (''error'', err)]"
  "\<not> contains out ''THEOREM PROVED'' \<Longrightarrow> \<not> contains out ''SEARCH FAILED'' \<Longrightarrow>
     \<not> contains err ''Fatal error'' \<Longrightarrow>
     prover_result timeout (Inr (Completed out err)) =
       Inr [(''result'', ''error''), (''reason'', ''Unexpected output''),
            (''output'', out), (''error'', err)]"
  by (simp_all add: prover_result_def try_block_def classify_def except_clauses_def)

text \<open>
  C2. The chain of tests is left by an exception when the standard output contains
  \<open>THEOREM PROVED\<close> and no \<open>PROOF =\<close> marker: the list index raises \<open>IndexError\<close>, the
  clause \<open>except Exception\<close> catches it, and the run is reported as an error with the
  message of the exception, not as proved.
\<close>

theorem theorem_proved_without_proof_marker:
  "prover_result 60 (Inr (Completed ''THEOREM PROVED'' '''')) =
     Inr [(''result'', ''error''), (''reason'', ''list index out of range'')]"
  by (simp add: prover_result_def try_block_def classify_def contains_def sublist_code
        except_clauses_def str_exn_def)




section \<open>The clean-up of the input file\<close>

text \<open>
  C9. Whatever the external program did (it returned its streams, it was timed out, or
  the launch raised), \<open>_run_prover\<close> leaves the file system with the input file removed,
  unless the operating system refuses the removal, in which case the file system is as
  the program left it and the refusal has no effect on the outcome. The outcome is a
  returned dictionary unless the run was interrupted from the keyboard; a launch failure
  with message \<open>msg\<close> is returned as an error with that reason.
\<close>

theorem run_prover_cleanup:
  assumes "program fs = (returned, fs1)"
    and "run_prover program path timeout fs = (outcome, fs')"
  shows "files fs' = (if path \<in> undeletable fs1 then files fs1 else files fs1 - {path}) \<and>
         undeletable fs' = undeletable fs1 \<and>
         outcome = prover_result timeout returned \<and>
         (returned \<noteq> Inl KeyboardInterrupt \<longrightarrow> (\<exists>r. outcome = Inr r)) \<and>
         (\<forall>msg. returned = Inl (OtherException msg) \<longrightarrow>
            outcome = Inr [(''result'', ''error''), (''reason'', msg)])"
proof -
  have o: "outcome = prover_result timeout returned" and f: "fs' = cleanup path fs1"
    using assms by (simp_all add: run_prover_def)
  have "files (cleanup path fs1) = (if path \<in> undeletable fs1 then files fs1 else files fs1 - {path})"
    by (auto simp: cleanup_def unlink_def)
  moreover have "undeletable (cleanup path fs1) = undeletable fs1"
    by (auto simp: cleanup_def unlink_def)
  moreover have "returned \<noteq> Inl KeyboardInterrupt \<longrightarrow> (\<exists>r. prover_result timeout returned = Inr r)"
    by (auto simp: prover_result_def try_block_def except_clauses_def classify_def
          split: sum.splits exn.splits option.splits)
  moreover have "\<forall>msg. returned = Inl (OtherException msg) \<longrightarrow>
      prover_result timeout returned = Inr [(''result'', ''error''), (''reason'', msg)]"
    by (simp add: prover_result_def try_block_def except_clauses_def str_exn_def)
  ultimately show ?thesis using o f by simp
qed

text \<open>The theorem at a launch failure, the input file present and removable.\<close>

theorem run_prover_cleanup_witness:
  "run_prover (\<lambda>fs. (Inl (OtherException ''boom''), fs)) ''/tmp/a.in'' 60
     \<lparr>files = {''/tmp/a.in'', ''/tmp/b''}, undeletable = {}\<rparr> =
   (Inr [(''result'', ''error''), (''reason'', ''boom'')],
    \<lparr>files = {''/tmp/b''}, undeletable = {}\<rparr>)"
proof -
  let ?program = "\<lambda>fs :: filesystem. (Inl (OtherException ''boom'') :: exn + completed, fs)"
  let ?fs = "\<lparr>files = {''/tmp/a.in'', ''/tmp/b''}, undeletable = {}\<rparr>"
  obtain outcome fs' where r: "run_prover ?program ''/tmp/a.in'' 60 ?fs = (outcome, fs')"
    by (cases "run_prover ?program ''/tmp/a.in'' 60 ?fs") 
  have p: "?program ?fs = (Inl (OtherException ''boom''), ?fs)" by simp
  have "files fs' = {''/tmp/b''}" "undeletable fs' = {}"
    "outcome = Inr [(''result'', ''error''), (''reason'', ''boom'')]"
    using run_prover_cleanup [OF p r] by auto
  then show ?thesis using r by simp
qed

section \<open>Facts about letter case\<close>

lemma lower_char_eq_iff:
  assumes "of_char l = (n::nat)" "97 \<le> n" "n \<le> 122"
  shows "lower_char c = l \<longleftrightarrow> c = l \<or> c = char_of (n - 32)"
proof -
  define k where "k = (of_char c :: nat)"
  have k: "k < 256" by (simp add: k_def)
  have c: "c = char_of k" by (simp add: k_def)
  have l: "l = char_of n" using assms(1) by (metis char_of_char)
  have nu: "\<not> is_upper l" using assms by (simp add: is_upper_def Let_def)
  show ?thesis
  proof (cases "is_upper c")
    case True
    then have r: "(65 \<le> k \<and> k \<le> 90) \<or> (192 \<le> k \<and> k \<le> 222 \<and> k \<noteq> 215)"
      by (simp add: is_upper_def k_def Let_def)
    have "lower_char c = char_of (k + 32)" using True by (simp add: lower_char_def k_def)
    moreover have "char_of (k + 32) = char_of n \<longleftrightarrow> k + 32 = n"
    proof -
      have "k + 32 < 256" using r by auto
      then have "(k + 32) mod 256 = k + 32" by simp
      then show ?thesis using assms(2,3) by (simp add: char_of_eq_iff take_bit_eq_mod)
    qed
    moreover have "char_of k = char_of (n - 32) \<longleftrightarrow> k = n - 32"
      using r assms(2,3) k by (simp add: char_of_eq_iff take_bit_eq_mod)
    moreover have "c \<noteq> l" using True nu by auto
    ultimately show ?thesis using assms(2) by (auto simp: c l)
  next
    case False
    have "c \<noteq> char_of (n - 32)"
    proof
      assume "c = char_of (n - 32)"
      then have "of_char c = n - 32" using assms(2,3) by simp
      moreover have "65 \<le> n - 32" "n - 32 \<le> 90" using assms(2,3) by auto
      ultimately show False using False by (simp add: is_upper_def Let_def)
    qed
    then show ?thesis using False by (simp add: lower_char_def)
  qed
qed

lemma lower_char_e:
  "lower_char c = CHR ''e'' \<longleftrightarrow> c = CHR ''e'' \<or> c = CHR ''E''"
  "CHR ''e'' = lower_char c \<longleftrightarrow> c = CHR ''e'' \<or> c = CHR ''E''"
proof -
  have "char_of (69 :: nat) = CHR ''E''" by code_simp
  then show "lower_char c = CHR ''e'' \<longleftrightarrow> c = CHR ''e'' \<or> c = CHR ''E''"
    using lower_char_eq_iff [of "CHR ''e''" 101 c] by simp
  then show "CHR ''e'' = lower_char c \<longleftrightarrow> c = CHR ''e'' \<or> c = CHR ''E''"
    by auto
qed

lemma lower_char_n:
  "lower_char c = CHR ''n'' \<longleftrightarrow> c = CHR ''n'' \<or> c = CHR ''N''"
  "CHR ''n'' = lower_char c \<longleftrightarrow> c = CHR ''n'' \<or> c = CHR ''N''"
proof -
  have "char_of (78 :: nat) = CHR ''N''" by code_simp
  then show "lower_char c = CHR ''n'' \<longleftrightarrow> c = CHR ''n'' \<or> c = CHR ''N''"
    using lower_char_eq_iff [of "CHR ''n''" 110 c] by simp
  then show "CHR ''n'' = lower_char c \<longleftrightarrow> c = CHR ''n'' \<or> c = CHR ''N''"
    by auto
qed

lemma lower_char_d:
  "lower_char c = CHR ''d'' \<longleftrightarrow> c = CHR ''d'' \<or> c = CHR ''D''"
  "CHR ''d'' = lower_char c \<longleftrightarrow> c = CHR ''d'' \<or> c = CHR ''D''"
proof -
  have "char_of (68 :: nat) = CHR ''D''" by code_simp
  then show "lower_char c = CHR ''d'' \<longleftrightarrow> c = CHR ''d'' \<or> c = CHR ''D''"
    using lower_char_eq_iff [of "CHR ''d''" 100 c] by simp
  then show "CHR ''d'' = lower_char c \<longleftrightarrow> c = CHR ''d'' \<or> c = CHR ''D''"
    by auto
qed

lemma collect_premises_filter:
  "collect_premises fs = filter (\<lambda>f. f \<noteq> [] \<and> \<not> startswith (lower f) ''end'') (map strip fs)"
  by (induction fs) (simp_all add: Let_def)

lemma first_goal_find:
  "first_goal gs = List.find (\<lambda>g. g \<noteq> [] \<and> \<not> startswith (lower g) ''end'') (map strip gs)"
  by (induction gs) (simp_all add: Let_def)

lemma startswith_lower_end:
  "startswith (lower p) ''end'' \<longleftrightarrow>
     (\<exists>c1 c2 c3 rest. p = c1 # c2 # c3 # rest \<and>
        (c1 = CHR ''e'' \<or> c1 = CHR ''E'') \<and> (c2 = CHR ''n'' \<or> c2 = CHR ''N'') \<and>
        (c3 = CHR ''d'' \<or> c3 = CHR ''D''))"
proof (cases p)
  case Nil then show ?thesis by (simp add: startswith_def lower_def)
next
  case (Cons c1 p1)
  show ?thesis
  proof (cases p1)
    case Nil then show ?thesis using Cons by (simp add: startswith_def lower_def)
  next
    case (Cons c2 p2)
    note p1 = this
    show ?thesis
    proof (cases p2)
      case Nil then show ?thesis using \<open>p = c1 # p1\<close> p1 by (simp add: startswith_def lower_def)
    next
      case (Cons c3 p3)
      then show ?thesis using \<open>p = c1 # p1\<close> p1
        by (simp add: startswith_def lower_def lower_char_e lower_char_n lower_char_d)
    qed
  qed
qed

text \<open>
  C10. No premise and no conclusion returned by \<open>parse_content\<close> is empty or begins with
  the letters \<open>end\<close> in any letter case.
\<close>

theorem no_formula_begins_with_end:
  assumes "parse_content text = (premises, conclusion)"
    and "f \<in> set premises \<or> conclusion = Some f"
  shows "f \<noteq> [] \<and> \<not> startswith (lower f) ''end'' \<and>
         \<not> (\<exists>c1 c2 c3 rest. f = c1 # c2 # c3 # rest \<and>
              (c1 = CHR ''e'' \<or> c1 = CHR ''E'') \<and> (c2 = CHR ''n'' \<or> c2 = CHR ''N'') \<and>
              (c3 = CHR ''d'' \<or> c3 = CHR ''D''))"
proof -
  have "\<forall>p \<in> set premises. p \<noteq> [] \<and> \<not> startswith (lower p) ''end''"
    using assms(1)
    by (auto simp: parse_content_def Let_def collect_premises_filter split: option.splits)
  moreover have "\<forall>g. conclusion = Some g \<longrightarrow> g \<noteq> [] \<and> \<not> startswith (lower g) ''end''"
    using assms(1)
    by (auto simp: parse_content_def Let_def first_goal_find find_Some_iff split: option.splits)
  ultimately have "f \<noteq> [] \<and> \<not> startswith (lower f) ''end''"
    using assms(2) by blast
  then show ?thesis by (simp only: startswith_lower_end) simp
qed

text \<open>
  The theorem at a file whose two blocks each begin with a formula on \<open>endures\<close>: the
  premise and the goal on \<open>endures\<close> are passed over.
\<close>

theorem no_formula_begins_with_end_witness:
  "parse_content ''formulas(assumptions).\<newline>Endures(socrates).\<newline>man(socrates).\<newline>end_of_list.\<newline>formulas(goals).\<newline>endures(socrates).\<newline>mortal(socrates).\<newline>end_of_list.'' =
     ([''man(socrates)''], Some ''mortal(socrates)'') \<and>
   \<not> startswith (lower ''man(socrates)'') ''end''"
proof -
  have p: "parse_content ''formulas(assumptions).\<newline>Endures(socrates).\<newline>man(socrates).\<newline>end_of_list.\<newline>formulas(goals).\<newline>endures(socrates).\<newline>mortal(socrates).\<newline>end_of_list.'' =
     ([''man(socrates)''], Some ''mortal(socrates)'')"
    by code_simp
  have m: "''man(socrates)'' \<in> set [''man(socrates)''] \<or> Some ''mortal(socrates)'' = Some ''man(socrates)''"
    by simp
  show ?thesis using p no_formula_begins_with_end [OF p m] by simp
qed

section \<open>Characters, trimming, splitting and joining\<close>

lemma lower_char_upper: "is_upper c \<Longrightarrow> (of_char (lower_char c) :: nat) = of_char c + 32"
proof -
  assume u: "is_upper c"
  then have "(of_char c :: nat) + 32 < 256" by (auto simp: is_upper_def Let_def)
  then show ?thesis using u by (simp add: lower_char_def)
qed

lemma lower_char_not_letter:
  assumes "(of_char d :: nat) < 65"
  shows "lower_char c = d \<longleftrightarrow> c = d"
proof (cases "is_upper c")
  case True
  then have c: "65 \<le> (of_char c :: nat)" by (auto simp: is_upper_def Let_def)
  have "lower_char c \<noteq> d"
  proof
    assume "lower_char c = d"
    then have "(of_char d :: nat) = of_char c + 32" using lower_char_upper[OF True] by simp
    then show False using assms c by simp
  qed
  moreover have "c \<noteq> d" using c assms by auto
  ultimately show ?thesis by simp
next
  case False
  then show ?thesis by (simp add: lower_char_def)
qed

lemma lower_char_period [simp]:
  "lower_char c = CHR ''.'' \<longleftrightarrow> c = CHR ''.''"
  "CHR ''.'' = lower_char c \<longleftrightarrow> c = CHR ''.''"
  using lower_char_not_letter [of "CHR ''.''" c] by auto

lemma lower_char_space: "is_space c \<Longrightarrow> lower_char c = c"
  by (auto simp: is_space_def lower_char_def is_upper_def Let_def)

lemma period_lower [simp]: "CHR ''.'' \<in> set (lower s) \<longleftrightarrow> CHR ''.'' \<in> set s"
  by (induction s) (auto simp: lower_def)

lemma strip_eq_iff:
  "strip s = s \<longleftrightarrow> s = [] \<or> (\<not> is_space (hd s) \<and> \<not> is_space (last s))"
proof (cases "s = []")
  case True
  then show ?thesis by (simp add: strip_def lstrip_def rstrip_def)
next
  case False
  show ?thesis
  proof
    assume e: "strip s = s"
    have l1: "length (rstrip t) \<le> length t" for t
      unfolding rstrip_def by (metis length_dropWhile_le length_rev)
    have a: "\<not> is_space (hd s)"
    proof
      assume "is_space (hd s)"
      then have "length (lstrip s) < length s" using False
        by (cases s) (auto simp: lstrip_def intro: le_imp_less_Suc length_dropWhile_le)
      then have "length (strip s) < length s" using l1[of "lstrip s"] by (simp add: strip_def)
      then show False using e by simp
    qed
    then have ls: "lstrip s = s" using False by (cases s) (auto simp: lstrip_def)
    have b: "\<not> is_space (last s)"
    proof
      assume "is_space (last s)"
      then have "is_space (hd (rev s))" using False by (simp add: hd_rev)
      then have "length (dropWhile is_space (rev s)) < length (rev s)" using False
        by (cases "rev s") (auto intro: le_imp_less_Suc length_dropWhile_le)
      then have "length (strip s) < length s" using ls by (simp add: strip_def rstrip_def)
      then show False using e by simp
    qed
    from a b show "s = [] \<or> (\<not> is_space (hd s) \<and> \<not> is_space (last s))" by simp
  next
    assume "s = [] \<or> (\<not> is_space (hd s) \<and> \<not> is_space (last s))"
    then have a: "\<not> is_space (hd s)" and b: "\<not> is_space (last s)" using False by auto
    have ls: "lstrip s = s" using a False by (cases s) (auto simp: lstrip_def)
    have "dropWhile is_space (rev s) = rev s" using b False
      by (cases "rev s") (auto simp: last_rev hd_rev[symmetric])
    then show "strip s = s" using ls by (simp add: strip_def rstrip_def)
  qed
qed

lemma split_char_none: "c \<notin> set l \<Longrightarrow> split_str [c] l = [l]"
  by (induction l) auto

lemma split_char_first: "c \<notin> set l \<Longrightarrow> split_str [c] (l @ c # r) = l # split_str [c] r"
  by (induction l) auto

lemma join_Cons: "xs \<noteq> [] \<Longrightarrow> join sep (x # xs) = x @ sep @ join sep xs"
  by (cases xs) auto

lemma split_join:
  "ls \<noteq> [] \<Longrightarrow> \<forall>l \<in> set ls. c \<notin> set l \<Longrightarrow> split_str [c] (join [c] ls) = ls"
proof (induction ls)
  case Nil
  then show ?case by simp
next
  case (Cons l ls)
  show ?case
  proof (cases "ls = []")
    case True
    then show ?thesis using Cons.prems by (simp add: split_char_none)
  next
    case False
    then show ?thesis using Cons by (simp add: join_Cons split_char_first)
  qed
qed

lemma prefix_same_end:
  assumes "prefix (a @ [x]) (b @ x # z)" "x \<notin> set a" "x \<notin> set b"
  shows "a = b"
proof -
  from assms(1) obtain w where w: "b @ x # z = a @ x # w" by (auto simp: prefix_def)
  then show ?thesis using assms(2,3)
    by (auto simp: append_eq_append_conv2 append_eq_Cons_conv Cons_eq_append_conv)
qed

section \<open>The terminators of the written formulas\<close>

lemma terminated_endswith: "endswith (terminated f) ''.''"
  by (simp add: terminated_def endswith_def suffix_def)

lemma endswith_two_periods:
  "endswith (terminated f) ''..'' \<longleftrightarrow> endswith f ''..''"
proof (cases "endswith f ''.''")
  case True
  then show ?thesis by (simp add: terminated_def)
next
  case False
  then have "\<not> endswith f ''..''" 
    by (auto simp: endswith_def suffix_def) 
  moreover have "\<not> endswith (f @ ''.'') ''..''" using False
    by (auto simp: endswith_def suffix_def append_eq_append_conv2 Cons_eq_append_conv append_eq_Cons_conv)
  ultimately show ?thesis using False by (simp add: terminated_def)
qed

lemma terminated_no_newline: "CHR ''\<newline>'' \<notin> set f \<Longrightarrow> CHR ''\<newline>'' \<notin> set (terminated f)"
  by (simp add: terminated_def)

text \<open>
  C8, amended. The written text is the assumptions header, the premises, the end marker,
  an empty string, the goals header, the goal and the end marker, joined by newlines,
  where every formula is written unchanged when it already ends with a period and with
  one period appended otherwise. So every written formula ends with a period, and with
  two periods exactly when the given formula did. When no formula holds a newline, these
  strings are the lines of the written text, the goal line included whatever the number
  of premises.
\<close>

theorem written_formulas_terminated:
  "create_input_file premises goal =
     join ''\<newline>''
       ([''formulas(assumptions).''] @ map terminated premises @
        [''end_of_list.'', '''', ''formulas(goals).'', terminated goal, ''end_of_list.'']) \<and>
   (\<forall>f. terminated f = (if endswith f ''.'' then f else f @ ''.'') \<and>
        endswith (terminated f) ''.'' \<and>
        (endswith (terminated f) ''..'' \<longleftrightarrow> endswith f ''..'')) \<and>
   ((\<forall>f \<in> set (goal # premises). CHR ''\<newline>'' \<notin> set f) \<longrightarrow>
      split_str ''\<newline>'' (create_input_file premises goal) =
        [''formulas(assumptions).''] @ map terminated premises @
        [''end_of_list.'', '''', ''formulas(goals).'', terminated goal, ''end_of_list.''])"
proof -
  let ?ls = "[''formulas(assumptions).''] @ map terminated premises @
        [''end_of_list.'', '''', ''formulas(goals).'', terminated goal, ''end_of_list.'']"
  have a: "create_input_file premises goal = join ''\<newline>'' ?ls"
    by (simp add: create_input_file_def input_lines_def)
  have b: "\<forall>f. terminated f = (if endswith f ''.'' then f else f @ ''.'') \<and>
        endswith (terminated f) ''.'' \<and>
        (endswith (terminated f) ''..'' \<longleftrightarrow> endswith f ''..'')"
    using terminated_endswith endswith_two_periods by (simp add: terminated_def)
  have c: "split_str ''\<newline>'' (create_input_file premises goal) = ?ls"
    if n: "\<forall>f \<in> set (goal # premises). CHR ''\<newline>'' \<notin> set f"
  proof -
    have "\<forall>l \<in> set ?ls. CHR ''\<newline>'' \<notin> set l"
      using n by (auto simp: terminated_no_newline)
    moreover have "?ls \<noteq> []" by simp
    ultimately have "split_str [CHR ''\<newline>''] (join [CHR ''\<newline>''] ?ls) = ?ls"
      by (rule split_join[rotated])
    then show ?thesis unfolding a .
  qed
  from a b c show ?thesis by blast
qed

text \<open>The theorem at two premises, one of them given with its period.\<close>

theorem written_formulas_terminated_witness:
  "CHR ''\<newline>'' \<notin> set ''r(c)'' \<and> CHR ''\<newline>'' \<notin> set ''p(a)'' \<and> CHR ''\<newline>'' \<notin> set ''q(b).'' \<and>
   split_str ''\<newline>'' (create_input_file [''p(a)'', ''q(b).''] ''r(c)'') =
     [''formulas(assumptions).'', ''p(a).'', ''q(b).'', ''end_of_list.'', '''',
      ''formulas(goals).'', ''r(c).'', ''end_of_list.'']"
proof -
  have h: "\<forall>f \<in> set (''r(c)'' # [''p(a)'', ''q(b).'']). CHR ''\<newline>'' \<notin> set f" by simp
  have t: "terminated ''p(a)'' = ''p(a).''" "terminated ''q(b).'' = ''q(b).''"
    "terminated ''r(c)'' = ''r(c).''"
    by (simp_all add: terminated_def endswith_def suffix_def)
  have "split_str ''\<newline>'' (create_input_file [''p(a)'', ''q(b).''] ''r(c)'') =
        [''formulas(assumptions).''] @ map terminated [''p(a)'', ''q(b).''] @
        [''end_of_list.'', '''', ''formulas(goals).'', terminated ''r(c)'', ''end_of_list.'']"
    using written_formulas_terminated [of "[''p(a)'', ''q(b).'']" "''r(c)''"] h by blast
  then show ?thesis by (simp add: t)
qed

text \<open>
  C8 as stated fails for a formula given with two periods at its end: it is written
  unchanged, so its line ends with more than one terminator.
\<close>

theorem two_terminators_counterexample:
  "split_str ''\<newline>'' (create_input_file [''a..''] ''g'') ! 1 = ''a..'' \<and>
   endswith (split_str ''\<newline>'' (create_input_file [''a..''] ''g'') ! 1) ''..''"
  by code_simp

section \<open>The parts of a match of the block pattern\<close>

text \<open>
  A match of the pattern holds the header and, after it, the end marker, each in some
  letter case.
\<close>

lemma lower_append: "lower (a @ b) = lower a @ lower b"
  by (simp add: lower_def)

lemma match_literal_Some:
  "match_literal p s = Some r \<Longrightarrow> \<exists>m. s = m @ r \<and> lower m = lower p"
proof (induction p s rule: match_literal.induct)
  case (1 s)
  then show ?case by simp
next
  case (2 p ps)
  then show ?case by simp
next
  case (3 p ps c cs)
  then have e: "lower_char c = lower_char p" and r: "match_literal ps cs = Some r"
    by (auto split: if_splits)
  from 3(1)[OF e r] obtain m where "cs = m @ r" "lower m = lower ps" by blast
  then have "c # cs = (c # m) @ r \<and> lower (c # m) = lower (p # ps)"
    using e by (simp add: lower_def)
  then show ?case by blast
qed

lemma spaces_end_marker:
  "spaces_end s \<Longrightarrow> \<exists>ws e r. s = ws @ e @ r \<and> lower e = lower end_marker"
proof (induction s)
  case Nil
  then show ?case by (simp add: end_marker_def)
next
  case (Cons c cs)
  show ?case
  proof (cases "is_space c \<and> spaces_end cs")
    case True
    with Cons.IH obtain ws e r where "cs = ws @ e @ r" "lower e = lower end_marker" by blast
    then have "c # cs = (c # ws) @ e @ r \<and> lower e = lower end_marker" by simp
    then show ?thesis by blast
  next
    case False
    with Cons.prems obtain r where "match_literal end_marker (c # cs) = Some r"
      by (auto split: if_splits)
    from match_literal_Some[OF this] obtain m where "c # cs = [] @ m @ r" "lower m = lower end_marker"
      by auto
    then show ?thesis by blast
  qed
qed

lemma lazy_group_marker:
  "lazy_group s = Some g \<Longrightarrow> \<exists>ws e r. s = g @ ws @ e @ r \<and> lower e = lower end_marker"
proof (induction s arbitrary: g)
  case Nil
  then have "spaces_end []" by (auto split: if_splits)
  then show ?case by (simp add: end_marker_def)
next
  case (Cons c cs)
  show ?case
  proof (cases "spaces_end (c # cs)")
    case True
    then have "g = []" using Cons.prems by (simp del: spaces_end.simps)
    then show ?thesis using spaces_end_marker[OF True] by simp
  next
    case False
    then obtain g' where g: "lazy_group cs = Some g'" "g = c # g'" using Cons.prems
      by (auto simp del: spaces_end.simps)
    from Cons.IH[OF g(1)] obtain ws e r where "cs = g' @ ws @ e @ r" "lower e = lower end_marker"
      by blast
    then have "c # cs = g @ ws @ e @ r \<and> lower e = lower end_marker" using g(2) by simp
    then show ?thesis by blast
  qed
qed

lemma spaces_group_marker:
  "spaces_group s = Some g \<Longrightarrow> \<exists>b e r. s = b @ e @ r \<and> lower e = lower end_marker"
proof (induction s arbitrary: g)
  case Nil
  then show ?case using lazy_group_marker[of "[]" g] by auto
next
  case (Cons c cs)
  show ?case
  proof (cases "is_space c \<and> spaces_group cs \<noteq> None")
    case True
    then obtain g' where "spaces_group cs = Some g'" by auto
    from Cons.IH[OF this] obtain b e r where "cs = b @ e @ r" "lower e = lower end_marker" by blast
    then have "c # cs = (c # b) @ e @ r \<and> lower e = lower end_marker" by simp
    then show ?thesis by blast
  next
    case False
    then have "lazy_group (c # cs) = Some g" using Cons.prems by (auto split: if_splits option.splits)
    from lazy_group_marker[OF this] obtain ws e r where
      "c # cs = (g @ ws) @ e @ r" "lower e = lower end_marker" by auto
    then show ?thesis by blast
  qed
qed

lemma match_here_parts:
  "match_here h s = Some g \<Longrightarrow>
     \<exists>m b e r. s = m @ b @ e @ r \<and> lower m = lower h \<and> lower e = lower end_marker"
proof -
  assume a: "match_here h s = Some g"
  then obtain rest where m: "match_literal h s = Some rest" and sg: "spaces_group rest = Some g"
    by (auto simp: match_here_def split: option.splits)
  from match_literal_Some[OF m] obtain m' where 1: "s = m' @ rest" "lower m' = lower h" by blast
  from spaces_group_marker[OF sg] obtain b e r where 2: "rest = b @ e @ r" "lower e = lower end_marker"
    by blast
  from 1 2 show ?thesis by blast
qed

lemma re_search_parts:
  "re_search h s = Some g \<Longrightarrow>
     \<exists>a m b e r. s = a @ m @ b @ e @ r \<and> lower m = lower h \<and> lower e = lower end_marker"
proof (induction s)
  case Nil
  then have "match_here h [] = Some g" by simp
  from match_here_parts[OF this] obtain m b e r where
    "[] = [] @ m @ b @ e @ r" "lower m = lower h" "lower e = lower end_marker" by auto
  then show ?case by blast
next
  case (Cons c cs)
  show ?case
  proof (cases "match_here h (c # cs)")
    case None
    then have "re_search h cs = Some g" using Cons.prems by simp
    from Cons.IH[OF this] obtain a m b e r where
      "cs = a @ m @ b @ e @ r" "lower m = lower h" "lower e = lower end_marker" by blast
    then have "c # cs = (c # a) @ m @ b @ e @ r \<and> lower m = lower h \<and> lower e = lower end_marker"
      by simp
    then show ?thesis by blast
  next
    case (Some g')
    from match_here_parts[OF this] obtain m b e r where
      "c # cs = [] @ m @ b @ e @ r" "lower m = lower h" "lower e = lower end_marker" by auto
    then show ?thesis by blast
  qed
qed

lemma lower_literal [simp]:
  "lower end_marker = end_marker" "lower assumptions_header = assumptions_header"
  "lower goals_header = goals_header"
  by (simp_all add: lower_def lower_char_def is_upper_def end_marker_def assumptions_header_def goals_header_def)

section \<open>A block without its end marker\<close>

subsection \<open>The content before and after the comment filter\<close>

text \<open>The lines of a text, each closed by a newline.\<close>

lemma join_as_concat:
  "ls \<noteq> [] \<Longrightarrow> join ''\<newline>'' ls @ ''\<newline>'' = concat (map (\<lambda>l. l @ ''\<newline>'') ls)"
proof (induction ls)
  case Nil
  then show ?case by simp
next
  case (Cons l ls)
  then show ?case by (cases ls) (simp_all add: join_Cons)
qed

lemma join_prefix_concat: "prefix (join ''\<newline>'' ls) (concat (map (\<lambda>l. l @ ''\<newline>'') ls))"
proof (cases "ls = []")
  case True
  then show ?thesis by simp
next
  case False
  from join_as_concat[OF this] show ?thesis by (metis prefixI)
qed

lemma join_split: "join [c] (split_str [c] s) = s"
proof (induction "[c]" s rule: split_str.induct)
  case 1
  then show ?case by simp
next
  case (2 d ds)
  show ?case
  proof (cases "d = c")
    case True
    then show ?thesis using 2 by (simp add: join_Cons split_str_nonempty)
  next
    case False
    then obtain p ps where "split_str [c] ds = p # ps"
      using split_str_nonempty[of "[c]" ds] by (cases "split_str [c] ds") auto
    then show ?thesis using False 2 by (cases ps) auto
  qed
qed

lemma strip_parts: "\<exists>w1 w2. l = w1 @ strip l @ w2"
proof -
  have "l = takeWhile is_space l @ dropWhile is_space l" by simp
  moreover have "\<exists>w2. t = rev (dropWhile is_space (rev t)) @ w2" for t :: string
    by (metis rev_append rev_rev_ident takeWhile_dropWhile_id)
  ultimately show ?thesis unfolding strip_def lstrip_def rstrip_def by metis
qed

text \<open>Where a text without a newline lies in a line followed by further text.\<close>

lemma across_newline:
  assumes "u @ c # X = p @ m @ q" and "c \<notin> set m" and "c \<notin> set u"
  shows "(\<exists>u2. u = p @ m @ u2 \<and> q = u2 @ c # X) \<or> (\<exists>p2. p = u @ c # p2 \<and> X = p2 @ m @ q)"
proof (cases "length (p @ m) \<le> length u")
  case True
  have "take (length (p @ m)) (u @ c # X) = p @ m" using assms(1) by simp
  then have "take (length (p @ m)) u = p @ m" using True by simp
  then obtain u2 where u: "u = (p @ m) @ u2" by (metis append_take_drop_id)
  then have "q = u2 @ c # X" using assms(1) by simp
  then show ?thesis using u by simp
next
  case False
  have "length u < length p"
  proof (rule ccontr)
    assume "\<not> length u < length p"
    then have "length p \<le> length u" "length u < length (p @ m)" using False by simp_all
    then have "length u - length p < length m" by simp
    then have "(p @ m @ q) ! length u = m ! (length u - length p)"
      using \<open>length p \<le> length u\<close> by (simp add: nth_append)
    moreover have "(u @ c # X) ! length u = c" by simp
    ultimately have "m ! (length u - length p) = c" using assms(1) by simp
    moreover have "length u - length p < length m"
      using \<open>length p \<le> length u\<close> \<open>length u < length (p @ m)\<close> by simp
    ultimately show False using assms(2) nth_mem by blast
  qed
  have "take (Suc (length u)) (u @ c # X) = u @ [c]" by simp
  then have "take (Suc (length u)) (p @ m @ q) = u @ [c]" using assms(1) by simp
  then have "take (Suc (length u)) p = u @ [c]" using \<open>length u < length p\<close> by simp
  then obtain p2 where p: "p = (u @ [c]) @ p2" by (metis append_take_drop_id)
  then have "X = p2 @ m @ q" using assms(1) by simp
  then show ?thesis using p by simp
qed

lemma split_lines_no_sep: "l \<in> set (split_str [c] s) \<Longrightarrow> c \<notin> set l"
proof (induction "[c]" s arbitrary: l rule: split_str.induct)
  case 1
  then show ?case by simp
next
  case (2 d ds)
  show ?case
  proof (cases "d = c")
    case True
    then show ?thesis using 2 by auto
  next
    case False
    then obtain p ps where s: "split_str [c] ds = p # ps"
      using split_str_nonempty[of "[c]" ds] by (cases "split_str [c] ds") auto
    then have "l = d # p \<or> l \<in> set ps" using 2(3) False by simp
    then show ?thesis using 2(2)[of p] 2(2)[of l] s False by auto
  qed
qed

lemma strip_no_newline: "c \<notin> set l \<Longrightarrow> c \<notin> set (strip l)"
  using strip_parts[of l] by (metis Un_iff set_append)

lemma one_occurrence:
  assumes "\<forall>l \<in> set ls. CHR ''\<newline>'' \<notin> set l" and "CHR ''\<newline>'' \<notin> set e" and "e \<noteq> []"
    and "concat (map (\<lambda>l. l @ ''\<newline>'') (keep_lines ls)) = x @ e @ y"
  shows "\<exists>x' y'. concat (map (\<lambda>l. l @ ''\<newline>'') ls) = x' @ e @ y'"
  using assms(1,4)
proof (induction ls arbitrary: x)
  case Nil
  then show ?case using assms(3) by simp
next
  case (Cons l ls)
  let ?U = "\<lambda>ls. concat (map (\<lambda>l. l @ ''\<newline>'') ls)"
  have nl: "\<forall>l \<in> set ls. CHR ''\<newline>'' \<notin> set l" using Cons.prems(1) by simp
  have later: "\<exists>x' y'. ?U (l # ls) = x' @ e @ y'" if "?U (keep_lines ls) = p @ e @ y" for p
  proof -
    from Cons.IH[OF nl that] obtain x' y' where "?U ls = x' @ e @ y'" by blast
    then have "?U (l # ls) = (l @ ''\<newline>'' @ x') @ e @ y'" by simp
    then show ?thesis by blast
  qed
  show ?case
  proof (cases "strip l \<noteq> [] \<and> \<not> startswith (strip l) ''%''")
    case False
    then have "keep_lines (l # ls) = keep_lines ls" by (auto simp: Let_def)
    then show ?thesis using Cons.prems(2) later by simp
  next
    case True
    then have "keep_lines (l # ls) = strip l # keep_lines ls" by (auto simp: Let_def)
    then have eq: "strip l @ CHR ''\<newline>'' # ?U (keep_lines ls) = x @ e @ y"
      using Cons.prems(2) by simp
    have "CHR ''\<newline>'' \<notin> set (strip l)" using Cons.prems(1) by (simp add: strip_no_newline)
    from across_newline[OF eq assms(2) this] show ?thesis
    proof
      assume "\<exists>u2. strip l = x @ e @ u2 \<and> y = u2 @ CHR ''\<newline>'' # ?U (keep_lines ls)"
      then obtain u2 where k: "strip l = x @ e @ u2" by blast
      obtain w1 w2 where "l = w1 @ strip l @ w2" using strip_parts by blast
      then have "?U (l # ls) = (w1 @ x) @ e @ (u2 @ w2 @ ''\<newline>'' @ ?U ls)" using k by simp
      then show ?thesis by blast
    next
      assume "\<exists>p2. x = strip l @ CHR ''\<newline>'' # p2 \<and> ?U (keep_lines ls) = p2 @ e @ y"
      then show ?thesis using later by blast
    qed
  qed
qed

lemma two_occurrences:
  assumes "\<forall>l \<in> set ls. CHR ''\<newline>'' \<notin> set l"
    and "CHR ''\<newline>'' \<notin> set m" and "CHR ''\<newline>'' \<notin> set e" and "e \<noteq> []"
    and "concat (map (\<lambda>l. l @ ''\<newline>'') (keep_lines ls)) = a @ m @ b @ e @ r"
  shows "\<exists>a' b' r'. concat (map (\<lambda>l. l @ ''\<newline>'') ls) = a' @ m @ b' @ e @ r'"
  using assms(1,5)
proof (induction ls arbitrary: a)
  case Nil
  then show ?case using assms(4) by simp
next
  case (Cons l ls)
  let ?U = "\<lambda>ls. concat (map (\<lambda>l. l @ ''\<newline>'') ls)"
  have nl: "\<forall>l \<in> set ls. CHR ''\<newline>'' \<notin> set l" using Cons.prems(1) by simp
  have later: "\<exists>a' b' r'. ?U (l # ls) = a' @ m @ b' @ e @ r'"
    if "?U (keep_lines ls) = p @ m @ b @ e @ r" for p
  proof -
    from Cons.IH[OF nl that] obtain a' b' r' where "?U ls = a' @ m @ b' @ e @ r'" by blast
    then have "?U (l # ls) = (l @ ''\<newline>'' @ a') @ m @ b' @ e @ r'" by simp
    then show ?thesis by blast
  qed
  show ?case
  proof (cases "strip l \<noteq> [] \<and> \<not> startswith (strip l) ''%''")
    case False
    then have "keep_lines (l # ls) = keep_lines ls" by (auto simp: Let_def)
    then show ?thesis using Cons.prems(2) later by simp
  next
    case True
    then have "keep_lines (l # ls) = strip l # keep_lines ls" by (auto simp: Let_def)
    then have eq: "strip l @ CHR ''\<newline>'' # ?U (keep_lines ls) = a @ m @ (b @ e @ r)"
      using Cons.prems(2) by simp
    have k: "CHR ''\<newline>'' \<notin> set (strip l)" using Cons.prems(1) by (simp add: strip_no_newline)
    obtain w1 w2 where w: "l = w1 @ strip l @ w2" using strip_parts by blast
    from across_newline[OF eq assms(2) k] show ?thesis
    proof
      assume "\<exists>u2. strip l = a @ m @ u2 \<and> b @ e @ r = u2 @ CHR ''\<newline>'' # ?U (keep_lines ls)"
      then obtain u2 where u: "strip l = a @ m @ u2"
        and eq2: "u2 @ CHR ''\<newline>'' # ?U (keep_lines ls) = b @ e @ r" by auto
      have "CHR ''\<newline>'' \<notin> set u2" using k u by simp
      from across_newline[OF eq2 assms(3) this] show ?thesis
      proof
        assume "\<exists>u3. u2 = b @ e @ u3 \<and> r = u3 @ CHR ''\<newline>'' # ?U (keep_lines ls)"
        then obtain u3 where "u2 = b @ e @ u3" by blast
        then have "l = w1 @ (a @ m @ b @ e @ u3) @ w2" using w u by simp
        then have "?U (l # ls) = (w1 @ a) @ m @ b @ e @ (u3 @ w2 @ ''\<newline>'' @ ?U ls)" by simp
        then show ?thesis by blast
      next
        assume "\<exists>p2. b = u2 @ CHR ''\<newline>'' # p2 \<and> ?U (keep_lines ls) = p2 @ e @ r"
        then obtain p2 where "?U (keep_lines ls) = p2 @ e @ r" by blast
        from one_occurrence[OF nl assms(3,4) this] obtain x' y' where "?U ls = x' @ e @ y'"
          by blast
        moreover have "l = w1 @ (a @ m @ u2) @ w2" using w u by simp
        ultimately have "?U (l # ls) = (w1 @ a) @ m @ (u2 @ w2 @ ''\<newline>'' @ x') @ e @ y'"
          by simp
        then show ?thesis by blast
      qed
    next
      assume "\<exists>p2. a = strip l @ CHR ''\<newline>'' # p2 \<and> ?U (keep_lines ls) = p2 @ m @ b @ e @ r"
      then show ?thesis using later by blast
    qed
  qed
qed

lemma newline_lower: "CHR ''\<newline>'' \<in> set (lower s) \<longleftrightarrow> CHR ''\<newline>'' \<in> set s"
proof -
  have a: "lower_char c = CHR ''\<newline>'' \<longleftrightarrow> c = CHR ''\<newline>''" for c
    by (rule lower_char_not_letter) simp
  have b: "CHR ''\<newline>'' = lower_char c \<longleftrightarrow> c = CHR ''\<newline>''" for c
    using a[of c] by (rule trans[OF eq_commute])
  show ?thesis
  proof (induction s)
    case Nil
    show ?case by (simp add: lower_def)
  next
    case (Cons c cs)
    then show ?case by (simp add: lower_def a b) blast
  qed
qed

lemma match_in_text:
  assumes "re_search h (remove_comments text) = Some g" and "CHR ''\<newline>'' \<notin> set h"
  shows "\<exists>a m b e r. text = a @ m @ b @ e @ r \<and> lower m = lower h \<and> lower e = end_marker"
proof -
  let ?U = "\<lambda>ls. concat (map (\<lambda>l. l @ ''\<newline>'') ls)"
  let ?ls = "split_str ''\<newline>'' text"
  from re_search_parts[OF assms(1)] obtain a m b e r where
    c: "remove_comments text = a @ m @ b @ e @ r" and m: "lower m = lower h"
    and e: "lower e = end_marker" by auto
  have "CHR ''\<newline>'' \<notin> set (lower h)" using assms(2) by (simp add: newline_lower)
  then have nm: "CHR ''\<newline>'' \<notin> set m" using m newline_lower[of m] by simp
  have "CHR ''\<newline>'' \<notin> set (lower e)" unfolding e by (simp add: end_marker_def)
  then have ne: "CHR ''\<newline>'' \<notin> set e" using newline_lower[of e] by simp
  have e0: "e \<noteq> []" using e by (auto simp: end_marker_def lower_def)
  obtain z where "?U (keep_lines ?ls) = remove_comments text @ z"
    using join_prefix_concat[of "keep_lines ?ls"] by (auto simp: remove_comments_def prefix_def)
  then have "?U (keep_lines ?ls) = a @ m @ b @ e @ (r @ z)" using c by simp
  moreover have "\<forall>l \<in> set ?ls. CHR ''\<newline>'' \<notin> set l" using split_lines_no_sep by blast
  ultimately obtain a' b' r' where u: "?U ?ls = a' @ m @ b' @ e @ r'"
    using two_occurrences[OF _ nm ne e0] by blast
  have "?U ?ls = text @ ''\<newline>''"
    using join_as_concat[OF split_str_nonempty, of "''\<newline>''" "text"] join_split[of "CHR ''\<newline>''" "text"]
    by simp
  then have t: "text @ ''\<newline>'' = a' @ m @ b' @ e @ r'" using u by simp
  have "r' \<noteq> []"
  proof
    assume "r' = []"
    then have "last (text @ ''\<newline>'') = last e" using t e0 by simp
    then show False using ne e0 last_in_set[of e] by auto
  qed
  then obtain r'' where "r' = r'' @ [last r']" by (metis append_butlast_last_id)
  then have "text @ ''\<newline>'' = (a' @ m @ b' @ e @ r'') @ [last r']" using t by simp
  then have "text = a' @ m @ b' @ e @ r''" by simp
  then show ?thesis using m e by blast
qed

subsection \<open>No end marker after the header\<close>

text \<open>
  C4, amended. For a content of code points 0 to 255: when the content can be cut in two
  so that the assumptions header does not occur before the cut and no end marker occurs
  after it (in any letter case), that is, when no end marker follows the first
  assumptions header, the assumptions block is not found and the premise sequence is
  empty.
\<close>

theorem no_end_marker_no_premises:
  assumes "text = pre @ rest"
    and "\<not> contains (lower pre) assumptions_header"
    and "\<not> contains (lower rest) end_marker"
  shows "re_search assumptions_header (remove_comments text) = None \<and>
         fst (parse_content text) = []"
proof -
  have "re_search assumptions_header (remove_comments text) = None"
  proof (rule ccontr)
    assume "re_search assumptions_header (remove_comments text) \<noteq> None"
    then obtain g where g: "re_search assumptions_header (remove_comments text) = Some g"
      by auto
    have n: "CHR ''\<newline>'' \<notin> set assumptions_header"
      by (simp add: assumptions_header_def)
    from match_in_text[OF g n] obtain a m b e r where
      s: "text = a @ m @ b @ e @ r" and m0: "lower m = lower assumptions_header"
      and e: "lower e = end_marker"
      by blast
    have m: "lower m = assumptions_header" using m0 by (simp only: lower_literal)
    show False
    proof (cases "length (a @ m) \<le> length pre")
      case True
      have "pre @ rest = (a @ m) @ (b @ e @ r)" using s assms(1) by simp
      with True obtain x where "pre = (a @ m) @ x"
        by (metis append_eq_append_conv_if append_take_drop_id)
      then have "sublist (lower m) (lower pre)" by (auto simp: lower_append sublist_def)
      then show False using assms(2) m by (simp add: contains_def)
    next
      case False
      have "pre @ rest = (a @ m @ b) @ (e @ r)" using s assms(1) by simp
      then have "drop (length pre) (pre @ rest) = drop (length pre) ((a @ m @ b) @ (e @ r))"
        by simp
      then have "rest = drop (length pre) (a @ m @ b) @ e @ r"
        using False by simp
      then obtain x where "rest = x @ e @ r" by blast
      then have "lower rest = lower x @ lower e @ lower r" by (simp add: lower_append)
      then have "sublist (lower e) (lower rest)" unfolding sublist_def by blast
      then show False using assms(3) e by (simp add: contains_def)
    qed
  qed
  then show ?thesis by (simp add: parse_content_def Let_def)
qed

text \<open>
  The theorem at a file of a comment line and two premises, without any end marker, cut
  before the period of the header.
\<close>

theorem no_end_marker_no_premises_witness:
  "\<not> contains (lower ''% no end marker\<newline>formulas(assumptions)'') assumptions_header \<and>
   \<not> contains (lower ''.\<newline>p(a).\<newline>q(b).'') end_marker \<and>
   fst (parse_content ''% no end marker\<newline>formulas(assumptions).\<newline>p(a).\<newline>q(b).'') = []"
proof -
  have h1: "''% no end marker\<newline>formulas(assumptions).\<newline>p(a).\<newline>q(b).'' =
     ''% no end marker\<newline>formulas(assumptions)'' @ ''.\<newline>p(a).\<newline>q(b).''"
    by simp
  have h2: "\<not> contains (lower ''% no end marker\<newline>formulas(assumptions)'') assumptions_header"
    by code_simp
  have h3: "\<not> contains (lower ''.\<newline>p(a).\<newline>q(b).'') end_marker"
    by code_simp
  show ?thesis using h2 h3 no_end_marker_no_premises [OF h1 h2 h3] by simp
qed

text \<open>
  C4 as stated fails when a goals block with its end marker follows: the assumptions
  block is found and runs up to the end marker of the goals block, so the premises are the
  premise, the goals header and the goal.
\<close>

theorem end_marker_of_goals_counterexample:
  "parse_content ''formulas(assumptions).\<newline>p(a).\<newline>formulas(goals).\<newline>q(a).\<newline>end_of_list.'' =
     ([''p(a)'', ''formulas(goals)'', ''q(a)''], Some ''q(a)'')"
  by code_simp

section \<open>The formulas of the two blocks\<close>

lemma re_split_no_period: "CHR ''.'' \<notin> set a \<Longrightarrow> re_split a = [a]"
  by (induction a) auto

lemma re_split_period:
  "CHR ''.'' \<notin> set a \<Longrightarrow> re_split (a @ CHR ''.'' # b) = a # re_split (dropWhile is_space b)"
  by (induction a) auto

text \<open>
  C5, amended. The premises are the pieces of the trimmed assumptions block, each
  trimmed, without the empty ones and those beginning with \<open>end\<close> in any letter case, in
  their order. The pieces are cut at every period, whether whitespace follows it or not:
  a text without a period is one piece, and a text with a period is cut at its first
  period, the whitespace right after the period dropped.
\<close>

theorem premises_split_at_periods:
  assumes "re_search assumptions_header (remove_comments text) = Some block"
    and "CHR ''.'' \<notin> set a"
  shows "fst (parse_content text) =
           filter (\<lambda>f. f \<noteq> [] \<and> \<not> startswith (lower f) ''end'')
             (map strip (re_split (strip block))) \<and>
         re_split a = [a] \<and>
         re_split (a @ ''.'' @ b) = a # re_split (dropWhile is_space b)"
  using assms
  by (simp add: parse_content_def Let_def collect_premises_filter re_split_no_period
        re_split_period)

text \<open>
  The theorem at a block of three formulas, the second after a period and a blank, the
  third right after a period.
\<close>

theorem premises_split_at_periods_witness:
  "re_search assumptions_header
     (remove_comments ''formulas(assumptions).\<newline>p(a). q(b).r(c).\<newline>end_of_list.'') =
     Some ''p(a). q(b).r(c).'' \<and>
   fst (parse_content ''formulas(assumptions).\<newline>p(a). q(b).r(c).\<newline>end_of_list.'') =
     [''p(a)'', ''q(b)'', ''r(c)''] \<and>
   re_split ''p(a). q(b).r(c).'' = ''p(a)'' # re_split ''q(b).r(c).''"
proof -
  have h1: "re_search assumptions_header
     (remove_comments ''formulas(assumptions).\<newline>p(a). q(b).r(c).\<newline>end_of_list.'') =
     Some ''p(a). q(b).r(c).''"
    by code_simp
  have h2: "CHR ''.'' \<notin> set ''p(a)''" by simp
  have e: "filter (\<lambda>f. f \<noteq> [] \<and> \<not> startswith (lower f) ''end'')
             (map strip (re_split (strip ''p(a). q(b).r(c).''))) = [''p(a)'', ''q(b)'', ''r(c)'']"
    by code_simp
  have d: "dropWhile is_space '' q(b).r(c).'' = ''q(b).r(c).''"
    by (simp add: is_space_def)
  show ?thesis
    using h1 premises_split_at_periods [OF h1 h2, of "'' q(b).r(c).''"] unfolding e d by simp
qed

text \<open>
  C5 as stated fails for a period that no whitespace follows: it splits the formula.
\<close>

theorem period_without_space_counterexample:
  "re_search assumptions_header
     (remove_comments ''formulas(assumptions).\<newline>p(1.5).\<newline>end_of_list.'') = Some ''p(1.5).'' \<and>
   fst (parse_content ''formulas(assumptions).\<newline>p(1.5).\<newline>end_of_list.'') = [''p(1'', ''5)'']"
  by code_simp

lemma first_goal_skips:
  assumes "\<forall>s \<in> set skipped. strip s = [] \<or> startswith (lower (strip s)) ''end''"
    and "strip g \<noteq> []" and "\<not> startswith (lower (strip g)) ''end''"
  shows "first_goal (skipped @ g # rest) = Some (strip g)"
  using assms by (induction skipped) (auto simp: Let_def)

text \<open>
  C6, amended. The conclusion is the first piece of the trimmed goals block that,
  trimmed, is not empty and does not begin with \<open>end\<close> in any letter case: the pieces
  before it that are empty or begin with \<open>end\<close> are passed over, whatever follows it
  in the block is dropped, and there is no conclusion when no piece qualifies. The pieces
  are cut at every period, as for the premises.
\<close>

theorem first_goal_wins:
  assumes "re_search goals_header (remove_comments text) = Some block"
  shows "snd (parse_content text) =
           List.find (\<lambda>g. g \<noteq> [] \<and> \<not> startswith (lower g) ''end'')
             (map strip (re_split (strip block))) \<and>
         (re_split (strip block) = skipped @ g # rest \<and>
          (\<forall>s \<in> set skipped. strip s = [] \<or> startswith (lower (strip s)) ''end'') \<and>
          strip g \<noteq> [] \<and> \<not> startswith (lower (strip g)) ''end'' \<longrightarrow>
            snd (parse_content text) = Some (strip g)) \<and>
         (CHR ''.'' \<notin> set a \<longrightarrow>
            re_split a = [a] \<and>
            re_split (a @ ''.'' @ b) = a # re_split (dropWhile is_space b))"
proof -
  have c: "snd (parse_content text) = first_goal (re_split (strip block))"
    using assms by (simp add: parse_content_def Let_def)
  have 1: "snd (parse_content text) =
           List.find (\<lambda>g. g \<noteq> [] \<and> \<not> startswith (lower g) ''end'')
             (map strip (re_split (strip block)))"
    unfolding c by (rule first_goal_find)
  have 2: "re_split (strip block) = skipped @ g # rest \<and>
          (\<forall>s \<in> set skipped. strip s = [] \<or> startswith (lower (strip s)) ''end'') \<and>
          strip g \<noteq> [] \<and> \<not> startswith (lower (strip g)) ''end'' \<longrightarrow>
            snd (parse_content text) = Some (strip g)"
  proof (intro impI, elim conjE)
    assume r: "re_split (strip block) = skipped @ g # rest"
      and s: "\<forall>s \<in> set skipped. strip s = [] \<or> startswith (lower (strip s)) ''end''"
      and g1: "strip g \<noteq> []" and g2: "\<not> startswith (lower (strip g)) ''end''"
    show "snd (parse_content text) = Some (strip g)"
      unfolding c r by (rule first_goal_skips[OF s g1 g2])
  qed
  have 3: "CHR ''.'' \<notin> set a \<longrightarrow>
            re_split a = [a] \<and>
            re_split (a @ ''.'' @ b) = a # re_split (dropWhile is_space b)"
    by (simp add: re_split_no_period re_split_period)
  from 1 2 3 show ?thesis by (intro conjI)
qed

text \<open>
  The theorem at a goals block of three formulas, the first of them on \<open>endures\<close>.
\<close>

theorem first_goal_wins_witness:
  "re_search goals_header
     (remove_comments ''formulas(goals).\<newline>endures(a).\<newline>mortal(a).\<newline>man(b).\<newline>end_of_list.'') =
     Some ''endures(a).\<newline>mortal(a).\<newline>man(b).'' \<and>
   re_split (strip ''endures(a).\<newline>mortal(a).\<newline>man(b).'') =
     [''endures(a)''] @ ''mortal(a)'' # [''man(b)'', ''''] \<and>
   startswith (lower (strip ''endures(a)'')) ''end'' \<and>
   \<not> startswith (lower (strip ''mortal(a)'')) ''end'' \<and>
   snd (parse_content ''formulas(goals).\<newline>endures(a).\<newline>mortal(a).\<newline>man(b).\<newline>end_of_list.'') =
     Some ''mortal(a)''"
proof -
  have h1: "re_search goals_header
     (remove_comments ''formulas(goals).\<newline>endures(a).\<newline>mortal(a).\<newline>man(b).\<newline>end_of_list.'') =
     Some ''endures(a).\<newline>mortal(a).\<newline>man(b).''"
    by code_simp
  have h2: "re_split (strip ''endures(a).\<newline>mortal(a).\<newline>man(b).'') =
     [''endures(a)''] @ ''mortal(a)'' # [''man(b)'', '''']"
    by code_simp
  have h3: "startswith (lower (strip ''endures(a)'')) ''end''" by code_simp
  have h4: "strip ''mortal(a)'' = ''mortal(a)''" by code_simp
  have h5: "\<not> startswith (lower (strip ''mortal(a)'')) ''end''" by code_simp
  have h6: "strip ''mortal(a)'' \<noteq> []" unfolding h4 by simp
  have h7: "\<forall>s \<in> set [''endures(a)'']. strip s = [] \<or> startswith (lower (strip s)) ''end''"
    using h3 by simp
  have "snd (parse_content ''formulas(goals).\<newline>endures(a).\<newline>mortal(a).\<newline>man(b).\<newline>end_of_list.'') =
     Some (strip ''mortal(a)'')"
    using first_goal_wins [OF h1, where skipped = "[''endures(a)'']" and g = "''mortal(a)''"
        and rest = "[''man(b)'', '''']"] h2 h7 h6 h5
    by blast
  then show ?thesis using h1 h2 h3 h5 unfolding h4 by simp
qed

text \<open>
  C6 as stated fails when the first formula of the goals block begins with \<open>end\<close>:
  the second formula is returned.
\<close>

theorem first_goal_skipped_counterexample:
  "re_search goals_header
     (remove_comments ''formulas(goals).\<newline>endures(a).\<newline>mortal(a).\<newline>end_of_list.'') =
     Some ''endures(a).\<newline>mortal(a).'' \<and>
   snd (parse_content ''formulas(goals).\<newline>endures(a).\<newline>mortal(a).\<newline>end_of_list.'') =
     Some ''mortal(a)''"
  by code_simp

section \<open>Writing a file and reading it back\<close>

subsection \<open>The lines of a formula\<close>

lemma join_starts: "\<exists>w. join sep (x # xs) = x @ w"
  by (cases xs) auto

lemma keep_lines_append: "keep_lines (xs @ ys) = keep_lines xs @ keep_lines ys"
  by (induction xs) (simp_all add: Let_def)

lemma split_append_sep:
  "split_str [c] (a @ c # r) = split_str [c] a @ split_str [c] r"
proof (induction "[c]" a rule: split_str.induct)
  case 1
  then show ?case by simp
next
  case (2 d ds)
  show ?case
  proof (cases "d = c")
    case True
    then show ?thesis using 2 by simp
  next
    case False
    obtain p ps where s: "split_str [c] ds = p # ps"
      using split_str_nonempty[of "[c]" ds] by (cases "split_str [c] ds") auto
    then show ?thesis using False 2 by simp
  qed
qed

lemma split_join_concat:
  "xs \<noteq> [] \<Longrightarrow> split_str [c] (join [c] xs) = concat (map (split_str [c]) xs)"
proof (induction xs)
  case Nil
  then show ?case by simp
next
  case (Cons x xs)
  show ?case
  proof (cases "xs = []")
    case True
    then show ?thesis by simp
  next
    case False
    then have "join [c] (x # xs) = x @ c # join [c] xs" by (simp add: join_Cons)
    then show ?thesis using Cons.IH[OF False] by (simp add: split_append_sep)
  qed
qed

lemma split_snoc:
  "d \<noteq> c \<Longrightarrow>
     split_str [c] (s @ [d]) = butlast (split_str [c] s) @ [last (split_str [c] s) @ [d]]"
proof (induction "[c]" s rule: split_str.induct)
  case 1
  then show ?case by simp
next
  case (2 e es)
  obtain p ps where s: "split_str [c] es = p # ps"
    using split_str_nonempty[of "[c]" es] by (cases "split_str [c] es") auto
  show ?case
  proof (cases "e = c")
    case True
    then show ?thesis using 2 s by simp
  next
    case False
    then show ?thesis using 2 s by (cases ps) auto
  qed
qed

lemma join_append:
  "a \<noteq> [] \<Longrightarrow> b \<noteq> [] \<Longrightarrow> join sep (a @ b) = join sep a @ sep @ join sep b"
proof (induction a)
  case Nil
  then show ?case by simp
next
  case (Cons x xs)
  then show ?case by (cases "xs = []") (simp_all add: join_Cons)
qed

lemma join_concat_split:
  "join [c] (concat (map (split_str [c]) xs)) = join [c] xs"
proof (induction xs)
  case Nil
  then show ?case by simp
next
  case (Cons x xs)
  show ?case
  proof (cases "xs = []")
    case True
    then show ?thesis by (simp add: join_split)
  next
    case False
    then have "concat (map (split_str [c]) xs) \<noteq> []"
      using split_str_nonempty by (cases xs) auto
    then have "join [c] (concat (map (split_str [c]) (x # xs))) =
        join [c] (split_str [c] x) @ [c] @ join [c] (concat (map (split_str [c]) xs))"
      using split_str_nonempty by (simp add: join_append)
    then show ?thesis using Cons.IH False by (simp add: join_split join_Cons)
  qed
qed

lemma keep_lines_concat: "keep_lines (concat xss) = concat (map keep_lines xss)"
  by (induction xss) (simp_all add: keep_lines_append)

lemma keep_lines_id:
  "\<forall>l \<in> set ls. l \<noteq> [] \<and> strip l = l \<and> \<not> startswith l ''%'' \<Longrightarrow> keep_lines ls = ls"
  by (induction ls) (simp_all add: Let_def)

lemma split_first_line:
  "split_str [c] s = l # ls \<Longrightarrow> l \<noteq> [] \<Longrightarrow> s \<noteq> [] \<and> hd s = hd l"
proof -
  assume a: "split_str [c] s = l # ls" "l \<noteq> []"
  have "\<exists>w. join [c] (l # ls) = l @ w" by (rule join_starts)
  then obtain w where "s = l @ w" using join_split[of c s] a(1) by auto
  then show ?thesis using a(2) by auto
qed

lemma join_last:
  "xs \<noteq> [] \<Longrightarrow> last xs \<noteq> [] \<Longrightarrow>
     join sep xs \<noteq> [] \<and> last (join sep xs) = last (last xs)"
proof (induction xs)
  case Nil
  then show ?case by simp
next
  case (Cons x xs)
  show ?case
  proof (cases "xs = []")
    case True
    then show ?thesis using Cons.prems by simp
  next
    case False
    then have "last xs \<noteq> []" using Cons.prems(2) by simp
    then have "join sep xs \<noteq> []" "last (join sep xs) = last (last xs)"
      using Cons.IH[OF False] by simp_all
    then show ?thesis using False by (simp add: join_Cons)
  qed
qed

text \<open>What a plain formula is at its two ends.\<close>

lemma plain_formula_facts:
  assumes "plain_formula p"
  shows "p \<noteq> []" "strip p = p" "CHR ''.'' \<notin> set p" "\<not> startswith p ''%''"
    "\<not> startswith (lower p) ''end''" "\<not> endswith (lower p) ''end_of_list''"
    "\<not> is_space (hd p)" "\<not> is_space (last p)"
proof -
  let ?L = "split_str ''\<newline>'' p"
  have all: "\<forall>l \<in> set ?L. l \<noteq> [] \<and> strip l = l \<and> \<not> startswith l ''%''"
    using assms by (simp add: plain_formula_def)
  obtain l ls where L: "?L = l # ls"
    using split_str_nonempty[of "''\<newline>''" p] by (cases ?L) auto
  have l: "l \<noteq> []" "strip l = l" "\<not> startswith l ''%''" using all L by simp_all
  from split_first_line[OF L l(1)] have p: "p \<noteq> []" and h: "hd p = hd l" by simp_all
  show "p \<noteq> []" by (rule p)
  have "\<not> is_space (hd l)" using l(1,2) strip_eq_iff[of l] by simp
  then show hs: "\<not> is_space (hd p)" using h by simp
  have "hd l \<noteq> CHR ''%''" using l(1,3) by (cases l) (auto simp: startswith_def)
  then show "\<not> startswith p ''%''" using p h by (cases p) (auto simp: startswith_def)
  have "last ?L \<in> set ?L" using L by simp
  then have e: "last ?L \<noteq> []" "strip (last ?L) = last ?L" using all by blast+
  have "?L \<noteq> []" using L by simp
  from join_last[OF this e(1), of "''\<newline>''"] have "last p = last (last ?L)"
    using join_split[of "CHR ''\<newline>''" p] by simp
  moreover have "\<not> is_space (last (last ?L))" using e strip_eq_iff[of "last ?L"] by simp
  ultimately show ls: "\<not> is_space (last p)" by simp
  show "strip p = p" using hs ls by (simp add: strip_eq_iff)
  show "CHR ''.'' \<notin> set p" "\<not> startswith (lower p) ''end''"
    "\<not> endswith (lower p) ''end_of_list''"
    using assms by (simp_all add: plain_formula_def)
qed

lemma plain_formula_ends:
  assumes "plain_formula p"
  shows "\<not> is_space (hd p)" "\<not> is_space (last p)" "p \<noteq> []"
  using plain_formula_facts[OF assms] by simp_all

subsection \<open>The end marker inside a line\<close>

lemma match_literal_self: "match_literal p (p @ y) = Some y"
  by (induction p) auto

lemma match_literal_prefix:
  "match_literal p s \<noteq> None \<Longrightarrow> prefix (lower p) (lower s)"
proof -
  assume "match_literal p s \<noteq> None"
  then obtain r where "match_literal p s = Some r" by auto
  from match_literal_Some[OF this] obtain m where "s = m @ r" "lower m = lower p" by blast
  then show ?thesis by (simp add: lower_append)
qed

lemma lower_char_literals [simp]:
  "lower_char CHR ''e'' = CHR ''e''" "lower_char CHR ''.'' = CHR ''.''"
  "lower_char CHR ''f'' = CHR ''f''" "lower_char CHR ''\<newline>'' = CHR ''\<newline>''"
  by (simp_all add: lower_char_def is_upper_def Let_def)

lemma match_literal_space:
  "is_space c \<Longrightarrow> match_literal end_marker (c # cs) = None"
proof -
  assume "is_space c"
  then have "c \<noteq> CHR ''e''" "c \<noteq> CHR ''E''" by (auto simp: is_space_def)
  then have "lower_char c \<noteq> CHR ''e''" by (simp add: lower_char_e)
  then show ?thesis by (simp add: end_marker_def)
qed

lemma spaces_end_iff:
  "spaces_end s \<longleftrightarrow> match_literal end_marker (dropWhile is_space s) \<noteq> None"
  by (induction s) (auto simp: match_literal_space)

text \<open>A literal that ends with its only period is not found inside a line that has its
  only period at its end, unless the line ends with the literal.\<close>

lemma literal_in_line:
  assumes "prefix (hb @ ''.'') (lower (q @ ''.'' @ z))"
    and "CHR ''.'' \<notin> set hb" and "CHR ''.'' \<notin> set l" and "suffix q l"
  shows "endswith (lower l) hb"
proof -
  have "CHR ''.'' \<notin> set q" using assms(3,4) by (auto simp: suffix_def)
  then have "CHR ''.'' \<notin> set (lower q)" by simp
  moreover have "prefix (hb @ [CHR ''.'']) (lower q @ CHR ''.'' # lower z)"
    using assms(1) by (simp add: lower_append lower_def)
  ultimately have "hb = lower q" using assms(2) by (intro prefix_same_end)
  moreover have "suffix (lower q) (lower l)" using assms(4) by (auto simp: suffix_def lower_append)
  ultimately show ?thesis by (simp add: endswith_def)
qed

lemma dropWhile_suffix: "suffix (dropWhile P xs) xs"
  by (metis suffix_def takeWhile_dropWhile_id)

lemma line_no_end:
  assumes "plain_formula p" and "suffix q (p @ ''.'')" and "q \<noteq> []"
  shows "\<not> spaces_end (q @ v)"
proof
  assume se: "spaces_end (q @ v)"
  from assms(2,3) obtain q' where q: "q = q' @ ''.''" and q': "suffix q' p"
    by (auto simp: suffix_append suffix_Cons)
  have d: "dropWhile is_space (q @ v) = dropWhile is_space q' @ ''.'' @ v"
  proof (cases "q' = []")
    case True
    then show ?thesis using q by (simp add: is_space_def)
  next
    case False
    then have "last q' = last p" using q' by (auto simp: suffix_def)
    then have "\<not> is_space (last q')" using plain_formula_ends(2)[OF assms(1)] by simp
    moreover have "last q' \<in> set q'" using False by simp
    ultimately have "dropWhile is_space (q' @ ''.'' @ v) = dropWhile is_space q' @ ''.'' @ v"
      by (rule dropWhile_append1[rotated])
    then show ?thesis using q by simp
  qed
  have s: "suffix (dropWhile is_space q') p"
    using q' dropWhile_suffix[of is_space q'] suffix_order.trans by blast
  have "match_literal end_marker (dropWhile is_space q' @ ''.'' @ v) \<noteq> None"
    using se d by (simp add: spaces_end_iff)
  from match_literal_prefix[OF this]
  have "prefix (lower end_marker) (lower (dropWhile is_space q' @ ''.'' @ v))" .
  then have "prefix end_marker (lower (dropWhile is_space q' @ ''.'' @ v))"
    by (simp only: lower_literal)
  then have "prefix (''end_of_list'' @ ''.'') (lower (dropWhile is_space q' @ ''.'' @ v))"
    by (simp add: end_marker_def)
  from literal_in_line[OF this _ _ s] have "endswith (lower p) ''end_of_list''"
    using plain_formula_facts(3)[OF assms(1)] by simp
  then show False using plain_formula_facts(6)[OF assms(1)] by simp
qed

lemma lazy_group_skip:
  "(\<And>q. suffix q u \<Longrightarrow> q \<noteq> [] \<Longrightarrow> \<not> spaces_end (q @ v)) \<Longrightarrow>
     lazy_group (u @ v) = map_option ((@) u) (lazy_group v)"
proof (induction u)
  case Nil
  then show ?case by (simp add: option.map_ident)
next
  case (Cons c cs)
  have 1: "\<not> spaces_end ((c # cs) @ v)" using Cons.prems[of "c # cs"] by simp
  have 2: "lazy_group (cs @ v) = map_option ((@) cs) (lazy_group v)"
    using Cons.prems by (intro Cons.IH) (auto simp: suffix_Cons)
  have "lazy_group ((c # cs) @ v) = map_option ((#) c) (lazy_group (cs @ v))"
    using 1 by (simp del: spaces_end.simps)
  then show ?case using 2 by (simp add: option.map_comp comp_def)
qed

lemma spaces_end_newline_marker: "spaces_end (''\<newline>'' @ end_marker @ v)"
  by (simp add: end_marker_def is_space_def)

lemma spaces_end_marker_here: "spaces_end (end_marker @ v)"
  by (simp add: end_marker_def is_space_def)

lemma spaces_end_newline_line:
  assumes "plain_formula p"
  shows "\<not> spaces_end (''\<newline>'' @ p @ ''.'' @ v)"
proof -
  have "\<not> spaces_end ((p @ ''.'') @ v)" using assms by (intro line_no_end[of p]) auto
  then show ?thesis unfolding spaces_end_iff by (simp add: is_space_def)
qed

subsection \<open>A block of lines\<close>

lemma lazy_group_stop: "spaces_end s \<Longrightarrow> lazy_group s = Some []"
  by (cases s) (simp_all del: spaces_end.simps)

lemma lazy_group_newline:
  "\<not> spaces_end (''\<newline>'' @ s) \<Longrightarrow>
     lazy_group (''\<newline>'' @ s) = map_option ((@) ''\<newline>'') (lazy_group s)"
  by (cases "lazy_group s") (simp_all del: spaces_end.simps)

lemma lazy_lines:
  assumes "\<forall>p \<in> set ps. plain_formula p"
  shows "lazy_group (join ''\<newline>'' (map (\<lambda>p. p @ ''.'') ps @ end_marker # ys)) =
           Some (join ''\<newline>'' (map (\<lambda>p. p @ ''.'') ps))"
  using assms
proof (induction ps)
  case Nil
  have "\<exists>v. join ''\<newline>'' (end_marker # ys) = end_marker @ v" by (cases ys) auto
  then obtain v where "join ''\<newline>'' (end_marker # ys) = end_marker @ v" by blast
  then have "spaces_end (join ''\<newline>'' (end_marker # ys))"
    by (simp only: spaces_end_marker_here)
  then show ?case using lazy_group_stop by simp
next
  case (Cons p qs)
  let ?J = "join ''\<newline>'' (map (\<lambda>p. p @ ''.'') qs @ end_marker # ys)"
  have p: "plain_formula p" using Cons.prems by simp
  have j: "join ''\<newline>'' (map (\<lambda>p. p @ ''.'') (p # qs) @ end_marker # ys) =
             (p @ ''.'') @ (''\<newline>'' @ ?J)"
    by (simp add: join_Cons)
  have s: "lazy_group ((p @ ''.'') @ (''\<newline>'' @ ?J)) =
             map_option ((@) (p @ ''.'')) (lazy_group (''\<newline>'' @ ?J))"
    using line_no_end[OF p] by (rule lazy_group_skip)
  show ?case
  proof (cases qs)
    case Nil
    have "\<exists>v. ?J = end_marker @ v" using Nil by (cases ys) auto
    then obtain v where "?J = end_marker @ v" by blast
    then have "spaces_end (''\<newline>'' @ ?J)" by (simp only: spaces_end_newline_marker)
    then have "lazy_group (''\<newline>'' @ ?J) = Some []"
      by (rule lazy_group_stop)
    then show ?thesis using j s Nil by simp
  next
    case (Cons q qs')
    have q: "plain_formula q" using Cons Cons.prems by simp
    have "\<exists>v. ?J = (q @ ''.'') @ v" unfolding Cons list.map append_Cons by (rule join_starts)
    then obtain v where v: "?J = q @ ''.'' @ v" by auto
    have "\<not> spaces_end (''\<newline>'' @ ?J)"
      unfolding v by (rule spaces_end_newline_line[OF q])
    then have "lazy_group (''\<newline>'' @ ?J) = map_option ((@) ''\<newline>'') (lazy_group ?J)"
      by (rule lazy_group_newline)
    moreover have "lazy_group ?J = Some (join ''\<newline>'' (map (\<lambda>p. p @ ''.'') qs))"
      using Cons.IH Cons.prems by simp
    ultimately show ?thesis using j s Cons by (simp add: join_Cons)
  qed
qed

lemma plain_dropWhile: "plain_formula q \<Longrightarrow> dropWhile is_space (q @ w) = q @ w"
  using plain_formula_ends[of q] by (cases q) auto

lemma re_split_lines:
  assumes "\<forall>p \<in> set ps. plain_formula p"
  shows "re_split (join ''\<newline>'' (map (\<lambda>p. p @ ''.'') ps)) = ps @ [[]]"
  using assms
proof (induction ps)
  case Nil
  then show ?case by simp
next
  case (Cons p qs)
  have "plain_formula p" using Cons.prems by simp
  then have p: "CHR ''.'' \<notin> set p" by (rule plain_formula_facts(3))
  show ?case
  proof (cases qs)
    case Nil
    then show ?thesis using p by (simp add: re_split_period)
  next
    case (Cons q qs')
    have q: "plain_formula q" using Cons Cons.prems by simp
    let ?J = "join ''\<newline>'' (map (\<lambda>p. p @ ''.'') qs)"
    have "\<exists>w. ?J = (q @ ''.'') @ w" unfolding Cons list.map by (rule join_starts)
    then obtain w where w: "?J = q @ (''.'' @ w)" by auto
    have "dropWhile is_space (''\<newline>'' @ ?J) = dropWhile is_space ?J"
      by (simp add: is_space_def)
    also have "\<dots> = ?J" unfolding w by (rule plain_dropWhile[OF q])
    finally have "dropWhile is_space (''\<newline>'' @ ?J) = ?J" .
    moreover have "join ''\<newline>'' (map (\<lambda>p. p @ ''.'') (p # qs)) = p @ CHR ''.'' # (''\<newline>'' @ ?J)"
      using Cons by (simp add: join_Cons)
    moreover have "re_split (p @ CHR ''.'' # (''\<newline>'' @ ?J)) =
        p # re_split (dropWhile is_space (''\<newline>'' @ ?J))"
      using p by (rule re_split_period)
    ultimately have "re_split (join ''\<newline>'' (map (\<lambda>p. p @ ''.'') (p # qs))) = p # re_split ?J"
      by (simp only:)
    then show ?thesis using Cons.IH Cons.prems by simp
  qed
qed

lemma strip_lines:
  assumes "\<forall>p \<in> set ps. plain_formula p"
  shows "strip (join ''\<newline>'' (map (\<lambda>p. p @ ''.'') ps)) = join ''\<newline>'' (map (\<lambda>p. p @ ''.'') ps)"
proof (cases ps)
  case Nil
  then show ?thesis by (simp add: strip_def lstrip_def rstrip_def)
next
  case (Cons p qs)
  let ?J = "join ''\<newline>'' (map (\<lambda>p. p @ ''.'') ps)"
  have "last (join ''\<newline>'' (map (\<lambda>p. p @ ''.'') xs)) = CHR ''.'' \<and>
        join ''\<newline>'' (map (\<lambda>p. p @ ''.'') xs) \<noteq> []" if "xs \<noteq> []" for xs :: "string list"
    using that
  proof (induction xs)
    case Nil
    then show ?case by simp
  next
    case (Cons x xs)
    then show ?case by (cases xs) (auto simp: join_Cons)
  qed
  note aux = this
  have "ps \<noteq> []" using Cons by simp
  then have l: "last ?J = CHR ''.''" "?J \<noteq> []" using aux[of ps] by blast+
  have "\<exists>w. ?J = (p @ ''.'') @ w" unfolding Cons list.map by (rule join_starts)
  then have "\<exists>w. ?J = p @ w" by auto
  moreover have "p \<noteq> []" "\<not> is_space (hd p)" using plain_formula_ends[of p] assms Cons by auto
  ultimately have "\<not> is_space (hd ?J)" by auto
  then show ?thesis using l by (simp add: strip_eq_iff is_space_def)
qed

lemma premises_of_lines:
  assumes "\<forall>p \<in> set ps. plain_formula p"
  shows "collect_premises (re_split (strip (join ''\<newline>'' (map (\<lambda>p. p @ ''.'') ps)))) = ps"
proof -
  have "filter (\<lambda>f. f \<noteq> [] \<and> \<not> startswith (lower f) ''end'') (map strip ps) = ps"
    using assms by (induction ps) (simp_all add: plain_formula_facts)
  moreover have "strip [] = []" by (simp add: strip_def lstrip_def rstrip_def)
  ultimately show ?thesis
    by (simp add: strip_lines[OF assms] re_split_lines[OF assms] collect_premises_filter)
qed

subsection \<open>The header of the goals block\<close>

lemma re_search_here: "match_here h s = Some g \<Longrightarrow> re_search h s = Some g"
  by (cases s) simp_all

lemma re_search_skip:
  "(\<And>q. suffix q u \<Longrightarrow> q \<noteq> [] \<Longrightarrow> match_here h (q @ v) = None) \<Longrightarrow>
     re_search h (u @ v) = re_search h v"
proof (induction u)
  case Nil
  then show ?case by simp
next
  case (Cons c cs)
  have "match_here h ((c # cs) @ v) = None" using Cons.prems[of "c # cs"] by simp
  moreover have "re_search h (cs @ v) = re_search h v"
    using Cons.prems by (intro Cons.IH) (auto simp: suffix_Cons)
  ultimately show ?case by simp
qed

lemma match_here_None: "\<not> prefix (lower h) (lower s) \<Longrightarrow> match_here h s = None"
  using match_literal_prefix[of h s] by (auto simp: match_here_def split: option.splits)

lemma line_no_header:
  assumes "CHR ''.'' \<notin> set l" and "\<not> endswith (lower l) ''formulas(goals)''"
    and "suffix q (l @ ''.\<newline>'')" and "q \<noteq> []"
  shows "match_here goals_header (q @ v) = None"
proof -
  from assms(3,4) consider "q = ''\<newline>''" | q' where "suffix q' l" "q = q' @ ''.\<newline>''"
    by (auto simp: suffix_append suffix_Cons)
  then show ?thesis
  proof cases
    case 1
    then show ?thesis by (simp add: match_here_def goals_header_def)
  next
    case 2
    have "\<not> prefix (lower goals_header) (lower (q @ v))"
    proof
      assume "prefix (lower goals_header) (lower (q @ v))"
      then have "prefix goals_header (lower (q @ v))" by (simp only: lower_literal)
      then have "prefix (''formulas(goals)'' @ ''.'') (lower (q' @ ''.'' @ (''\<newline>'' @ v)))"
        using 2(2) by (simp add: goals_header_def)
      from literal_in_line[OF this _ assms(1) 2(1)] show False using assms(2) by simp
    qed
    then show ?thesis by (rule match_here_None)
  qed
qed

lemma skip_lines:
  assumes "\<forall>l \<in> set ls. CHR ''.'' \<notin> set l \<and> \<not> endswith (lower l) ''formulas(goals)''"
    and "xs \<noteq> []"
  shows "re_search goals_header (join ''\<newline>'' (map (\<lambda>p. p @ ''.'') ls @ xs)) =
           re_search goals_header (join ''\<newline>'' xs)"
  using assms(1)
proof (induction ls)
  case Nil
  then show ?case by simp
next
  case (Cons l ls)
  let ?J = "join ''\<newline>'' (map (\<lambda>p. p @ ''.'') ls @ xs)"
  have "join ''\<newline>'' (map (\<lambda>p. p @ ''.'') (l # ls) @ xs) = (l @ ''.\<newline>'') @ ?J"
    using assms(2) by (simp add: join_Cons)
  moreover have "re_search goals_header ((l @ ''.\<newline>'') @ ?J) = re_search goals_header ?J"
    using Cons.prems by (intro re_search_skip line_no_header) auto
  ultimately show ?case using Cons by simp
qed

lemma spaces_group_newline:
  assumes "J \<noteq> []" "\<not> is_space (hd J)" "lazy_group J = Some g"
  shows "spaces_group (''\<newline>'' @ J) = Some g"
proof -
  from assms(1) obtain c cs where J: "J = c # cs" by (cases J) auto
  then have "spaces_group J = Some g" using assms(2,3) by (simp del: lazy_group.simps)
  then show ?thesis by (simp add: is_space_def del: lazy_group.simps)
qed

lemma strip_line: "plain_formula p \<Longrightarrow> strip (p @ ''.'') = p @ ''.''"
  using plain_formula_ends[of p] by (simp add: strip_eq_iff is_space_def)

lemma dot_lines_kept:
  assumes "plain_formula p"
  shows "keep_lines (split_str ''\<newline>'' (p @ ''.'')) = split_str ''\<newline>'' (p @ ''.'')"
proof -
  let ?L = "split_str ''\<newline>'' p"
  have all: "\<forall>l \<in> set ?L. l \<noteq> [] \<and> strip l = l \<and> \<not> startswith l ''%''"
    using assms by (simp add: plain_formula_def)
  have s: "split_str ''\<newline>'' (p @ ''.'') = butlast ?L @ [last ?L @ ''.'']"
    by (rule split_snoc) simp
  have "?L \<noteq> []" by (rule split_str_nonempty)
  then have "last ?L \<in> set ?L" by simp
  then have e: "last ?L \<noteq> []" "strip (last ?L) = last ?L" "\<not> startswith (last ?L) ''%''"
    using all by blast+
  have "\<not> is_space (hd (last ?L))" using e(1,2) strip_eq_iff[of "last ?L"] by simp
  then have 1: "strip (last ?L @ ''.'') = last ?L @ ''.''"
    using e(1) by (simp add: strip_eq_iff is_space_def)
  have 2: "\<not> startswith (last ?L @ ''.'') ''%''"
    using e(1,3) by (cases "last ?L") (auto simp: startswith_def)
  have "\<forall>l \<in> set (butlast ?L @ [last ?L @ ''.'']).
      l \<noteq> [] \<and> strip l = l \<and> \<not> startswith l ''%''"
    using all 1 2 by (auto dest: in_set_butlastD)
  then show ?thesis unfolding s by (rule keep_lines_id)
qed

lemma dots_lines_kept:
  "\<forall>p \<in> set ps. plain_formula p \<Longrightarrow>
     concat (map (\<lambda>x. keep_lines (split_str ''\<newline>'' x)) (map (\<lambda>p. p @ ''.'') ps)) =
     concat (map (split_str ''\<newline>'') (map (\<lambda>p. p @ ''.'') ps))"
  by (induction ps) (simp_all add: dot_lines_kept)

lemma terminated_plain: "plain_formula p \<Longrightarrow> terminated p = p @ ''.''"
  using plain_formula_facts(3)[of p] by (auto simp: terminated_def endswith_def suffix_def)

subsection \<open>The round trip\<close>

lemma block_found:
  assumes "\<forall>p \<in> set ps. plain_formula p"
  shows "re_search h (join ''\<newline>'' (h # map (\<lambda>p. p @ ''.'') ps @ end_marker # ys)) =
           Some (join ''\<newline>'' (map (\<lambda>p. p @ ''.'') ps))"
proof -
  let ?J = "join ''\<newline>'' (map (\<lambda>p. p @ ''.'') ps @ end_marker # ys)"
  let ?B = "join ''\<newline>'' (map (\<lambda>p. p @ ''.'') ps)"
  have c: "join ''\<newline>'' (h # map (\<lambda>p. p @ ''.'') ps @ end_marker # ys) = h @ (''\<newline>'' @ ?J)"
    by (simp add: join_Cons)
  have l: "lazy_group ?J = Some ?B" using assms by (rule lazy_lines)
  have "?J \<noteq> [] \<and> \<not> is_space (hd ?J)"
  proof (cases ps)
    case Nil
    have "\<exists>w. ?J = end_marker @ w" unfolding Nil list.map append_Nil by (rule join_starts)
    then show ?thesis by (auto simp: end_marker_def is_space_def)
  next
    case (Cons p qs)
    have "\<exists>w. ?J = (p @ ''.'') @ w" unfolding Cons list.map append_Cons by (rule join_starts)
    moreover have "p \<noteq> []" "\<not> is_space (hd p)" using plain_formula_ends[of p] assms Cons by auto
    ultimately show ?thesis by auto
  qed
  then have "spaces_group (''\<newline>'' @ ?J) = Some ?B" using l by (intro spaces_group_newline) auto
  then have "match_here h (h @ (''\<newline>'' @ ?J)) = Some ?B"
    by (simp only: match_here_def match_literal_self option.case)
  then show ?thesis unfolding c by (rule re_search_here)
qed

lemma header_lines:
  "\<not> endswith (lower ''formulas(assumptions)'') ''formulas(goals)''"
  "\<not> endswith (lower ''end_of_list'') ''formulas(goals)''"
  by (simp_all add: endswith_def suffix_to_prefix lower_def lower_char_def is_upper_def Let_def)

lemma strip_literals:
  "strip assumptions_header = assumptions_header" "strip end_marker = end_marker"
  "strip goals_header = goals_header" "strip [] = []"
  by (simp_all add: strip_eq_iff assumptions_header_def end_marker_def goals_header_def
        is_space_def)

lemma literals_kept:
  "assumptions_header \<noteq> [] \<and> \<not> startswith assumptions_header ''%''"
  "end_marker \<noteq> [] \<and> \<not> startswith end_marker ''%''"
  "goals_header \<noteq> [] \<and> \<not> startswith goals_header ''%''"
  by (simp_all add: assumptions_header_def end_marker_def goals_header_def startswith_def)

lemma literal_lines:
  "keep_lines [assumptions_header] = [assumptions_header]"
  "keep_lines [end_marker, [], goals_header] = [end_marker, goals_header]"
  "keep_lines [end_marker] = [end_marker]"
  by (simp_all add: Let_def strip_literals literals_kept)

lemma single_literal_lines:
  "keep_lines (split_str ''\<newline>'' assumptions_header) = split_str ''\<newline>'' assumptions_header"
  "keep_lines (split_str ''\<newline>'' end_marker) = split_str ''\<newline>'' end_marker"
  "keep_lines (split_str ''\<newline>'' goals_header) = split_str ''\<newline>'' goals_header"
  "keep_lines (split_str ''\<newline>'' []) = []"
proof -
  have "split_str ''\<newline>'' assumptions_header = [assumptions_header]"
    by (rule split_char_none) (simp add: assumptions_header_def)
  then show "keep_lines (split_str ''\<newline>'' assumptions_header) =
      split_str ''\<newline>'' assumptions_header"
    by (simp add: Let_def strip_literals literals_kept)
  have "split_str ''\<newline>'' end_marker = [end_marker]"
    by (rule split_char_none) (simp add: end_marker_def)
  then show "keep_lines (split_str ''\<newline>'' end_marker) = split_str ''\<newline>'' end_marker"
    by (simp add: Let_def strip_literals literals_kept)
  have "split_str ''\<newline>'' goals_header = [goals_header]"
    by (rule split_char_none) (simp add: goals_header_def)
  then show "keep_lines (split_str ''\<newline>'' goals_header) = split_str ''\<newline>'' goals_header"
    by (simp add: Let_def strip_literals literals_kept)
  show "keep_lines (split_str ''\<newline>'' []) = []"
    by (simp add: Let_def strip_literals)
qed

text \<open>The text of the input file after the comment filter: the empty line is gone.\<close>

lemma comment_filter_lines:
  assumes ps: "\<forall>p \<in> set ps. plain_formula p" and g: "plain_formula g"
  shows "remove_comments (create_input_file ps g) =
           join ''\<newline>''
             ([assumptions_header] @ map (\<lambda>p. p @ ''.'') ps @
              [end_marker, goals_header] @ map (\<lambda>p. p @ ''.'') [g] @ [end_marker])"
proof -
  let ?dot = "\<lambda>p. p @ ''.''"
  let ?S = "split_str ''\<newline>''"
  let ?K = "\<lambda>x. keep_lines (split_str ''\<newline>'' x)"
  let ?kept = "[assumptions_header] @ map ?dot ps @
      [end_marker, goals_header] @ map ?dot [g] @ [end_marker]"
  have lines: "input_lines ps g =
      [assumptions_header] @ map ?dot ps @
      [end_marker, [], goals_header] @ map ?dot [g] @ [end_marker]"
    using ps g
    by (simp add: input_lines_def terminated_plain assumptions_header_def end_marker_def
          goals_header_def)
  have "input_lines ps g \<noteq> []" by (simp add: input_lines_def)
  then have "?S (join ''\<newline>'' (input_lines ps g)) = concat (map ?S (input_lines ps g))"
    by (rule split_join_concat)
  then have 1: "remove_comments (create_input_file ps g) =
      join ''\<newline>'' (concat (map ?K (input_lines ps g)))"
    by (simp add: remove_comments_def create_input_file_def keep_lines_concat comp_def)
  have 2: "concat (map ?K (input_lines ps g)) = concat (map ?S ?kept)"
    unfolding lines
    using dots_lines_kept[OF ps] dot_lines_kept[OF g]
    by (simp add: single_literal_lines Let_def strip_literals)
  have 3: "join ''\<newline>'' (concat (map ?S ?kept)) = join ''\<newline>'' ?kept"
    by (rule join_concat_split)
  show ?thesis unfolding 1 2 3 ..
qed

text \<open>Reading back a text without a carriage return.\<close>

lemma universal_newlines_id: "CHR 0x0D \<notin> set s \<Longrightarrow> universal_newlines s = s"
  by (induction s rule: universal_newlines.induct) auto

lemma join_without:
  "c \<notin> set sep \<Longrightarrow> \<forall>x \<in> set xs. c \<notin> set x \<Longrightarrow> c \<notin> set (join sep xs)"
  by (induction sep xs rule: join.induct) auto

lemma input_file_without_return:
  assumes "\<forall>f \<in> set (goal # premises). CHR 0x0D \<notin> set f"
  shows "CHR 0x0D \<notin> set (create_input_file premises goal)"
proof -
  have "CHR 0x0D \<notin> set (terminated f)" if "CHR 0x0D \<notin> set f" for f
    using that by (simp add: terminated_def)
  then have "\<forall>x \<in> set (input_lines premises goal). CHR 0x0D \<notin> set x"
    using assms by (auto simp: input_lines_def)
  then show ?thesis unfolding create_input_file_def by (intro join_without) simp_all
qed

text \<open>
  C7, amended. For formulas of code points 0 to 255: when the goal and every premise are
  plain formulas (no period; every line of the formula not empty, without surrounding
  whitespace and not beginning with the comment sign; not beginning with \<open>end\<close> and not
  ending with \<open>end_of_list\<close> in any letter case) and no premise ends with
  \<open>formulas(goals)\<close> in any letter case, parsing the text of the input file gives back
  the premises in their order and the goal. When, in addition, no formula holds a carriage
  return, \<open>parse_file\<close> on the written file gives them back as well (the file written
  with its newlines as they are and read in the encoding it was written in).
\<close>

theorem round_trip:
  assumes "\<forall>f \<in> set (goal # premises). plain_formula f"
    and "\<forall>p \<in> set premises. \<not> endswith (lower p) ''formulas(goals)''"
  shows "parse_content (create_input_file premises goal) = (premises, Some goal) \<and>
         ((\<forall>f \<in> set (goal # premises). CHR 0x0D \<notin> set f) \<longrightarrow>
            parse_file (write_input_file stored path premises goal) path =
              Inr (premises, Some goal))"
proof -
  let ?dot = "\<lambda>p. p @ ''.''"
  have g: "plain_formula goal" and ps: "\<forall>p \<in> set premises. plain_formula p"
    using assms(1) by simp_all
  let ?C = "remove_comments (create_input_file premises goal)"
  have C: "?C = join ''\<newline>''
             ([assumptions_header] @ map ?dot premises @
              [end_marker, goals_header] @ map ?dot [goal] @ [end_marker])"
    using ps g by (rule comment_filter_lines)
  \<comment> \<open>the assumptions block\<close>
  have "?C = join ''\<newline>'' (assumptions_header # map ?dot premises @
      end_marker # (goals_header # map ?dot [goal] @ [end_marker]))"
    unfolding C by simp
  then have a: "re_search assumptions_header ?C = Some (join ''\<newline>'' (map ?dot premises))"
    using block_found[OF ps] by (simp only:)
  \<comment> \<open>the goals block\<close>
  have "?C = join ''\<newline>'' (map ?dot ([''formulas(assumptions)''] @ premises @ [''end_of_list'']) @
      (goals_header # map ?dot [goal] @ [end_marker]))"
    unfolding C by (simp add: assumptions_header_def end_marker_def)
  moreover have "\<forall>p \<in> set premises. CHR ''.'' \<notin> set p"
    using ps plain_formula_facts(3) by blast
  then have "\<forall>l \<in> set ([''formulas(assumptions)''] @ premises @ [''end_of_list'']).
      CHR ''.'' \<notin> set l \<and> \<not> endswith (lower l) ''formulas(goals)''"
    using assms(2) header_lines by auto
  ultimately have "re_search goals_header ?C =
      re_search goals_header (join ''\<newline>'' (goals_header # map ?dot [goal] @ end_marker # []))"
    using skip_lines[of "[''formulas(assumptions)''] @ premises @ [''end_of_list'']"
        "goals_header # map ?dot [goal] @ [end_marker]"]
    by simp
  also have "\<dots> = Some (join ''\<newline>'' (map ?dot [goal]))"
    using g by (intro block_found) simp
  finally have b: "re_search goals_header ?C = Some (goal @ ''.'')" by simp
  \<comment> \<open>the formulas of the two blocks\<close>
  have p1: "collect_premises (re_split (strip (join ''\<newline>'' (map ?dot premises)))) = premises"
    using ps by (rule premises_of_lines)
  have "re_split (goal @ CHR ''.'' # []) = goal # re_split (dropWhile is_space [])"
    by (rule re_split_period) (rule plain_formula_facts(3)[OF g])
  then have "first_goal (re_split (strip (goal @ ''.''))) = Some goal"
    using strip_line[OF g] plain_formula_facts(1,2,5)[OF g] by (simp add: Let_def)
  then have direct: "parse_content (create_input_file premises goal) = (premises, Some goal)"
    using a b p1 by (simp add: parse_content_def Let_def)
  \<comment> \<open>through the file\<close>
  have "parse_file (write_input_file stored path premises goal) path =
      Inr (premises, Some goal)"
    if "\<forall>f \<in> set (goal # premises). CHR 0x0D \<notin> set f"
  proof -
    have "universal_newlines (create_input_file premises goal) =
        create_input_file premises goal"
      using that by (intro universal_newlines_id input_file_without_return)
    then show ?thesis using direct by (simp add: parse_file_def write_input_file_def)
  qed
  with direct show ?thesis by blast
qed

text \<open>
  The theorem at the syllogism of C1, its first premise broken over two lines.
\<close>

theorem round_trip_witness:
  "plain_formula ''all x (man(x) ->\<newline>mortal(x))'' \<and> plain_formula ''man(socrates)'' \<and>
   plain_formula ''mortal(socrates)'' \<and>
   parse_content
     (create_input_file [''all x (man(x) ->\<newline>mortal(x))'', ''man(socrates)'']
        ''mortal(socrates)'') =
     ([''all x (man(x) ->\<newline>mortal(x))'', ''man(socrates)''], Some ''mortal(socrates)'') \<and>
   parse_file
     (write_input_file Map.empty ''/tmp/tmp1.in''
        [''all x (man(x) ->\<newline>mortal(x))'', ''man(socrates)''] ''mortal(socrates)'')
     ''/tmp/tmp1.in'' =
     Inr ([''all x (man(x) ->\<newline>mortal(x))'', ''man(socrates)''], Some ''mortal(socrates)'')"
proof -
  have p: "plain_formula ''all x (man(x) ->\<newline>mortal(x))''" "plain_formula ''man(socrates)''"
    "plain_formula ''mortal(socrates)''"
    by code_simp+
  have e: "\<not> endswith (lower ''all x (man(x) ->\<newline>mortal(x))'') ''formulas(goals)''"
    "\<not> endswith (lower ''man(socrates)'') ''formulas(goals)''"
    by code_simp+
  have h1: "\<forall>f \<in> set (''mortal(socrates)'' # [''all x (man(x) ->\<newline>mortal(x))'', ''man(socrates)'']).
      plain_formula f"
    using p by simp
  have h2: "\<forall>p \<in> set [''all x (man(x) ->\<newline>mortal(x))'', ''man(socrates)''].
      \<not> endswith (lower p) ''formulas(goals)''"
    using e by simp
  have h3: "\<forall>f \<in> set (''mortal(socrates)'' # [''all x (man(x) ->\<newline>mortal(x))'', ''man(socrates)'']).
      CHR 0x0D \<notin> set f"
    by simp
  show ?thesis
    using p h3 round_trip [OF h1 h2, where stored = Map.empty and path = "''/tmp/tmp1.in''"]
    by blast
qed

text \<open>
  C7 as stated fails for formulas without a trailing period that begin with \<open>end\<close>
  or hold a period inside: the first premise is lost and the second comes back in two
  pieces.
\<close>

theorem round_trip_counterexample:
  "parse_content (create_input_file [''endpoint(a)'', ''p(1.5)''] ''q(a)'') =
     ([''p(1'', ''5)''], Some ''q(a)'')"
  by code_simp

text \<open>
  The condition on carriage returns is needed for the file only: a carriage return inside
  a premise comes back from the text as it is, and from the file as a line feed.
\<close>

lemma carriage_return_read_back:
  "parse_content (create_input_file [''a'' @ [CHR 0x0D] @ ''b''] ''g'') =
     ([''a'' @ [CHR 0x0D] @ ''b''], Some ''g'') \<and>
   parse_file (write_input_file Map.empty ''/tmp/tmp1.in'' [''a'' @ [CHR 0x0D] @ ''b''] ''g'')
     ''/tmp/tmp1.in'' = Inr ([''a\<newline>b''], Some ''g'')"
  unfolding parse_file_def write_input_file_def by code_simp

end
